theory Spec2Isabelle
  imports Main "HOL-Library.Word"
begin

section \<open>Memory, faults and the shared header\<close>

text \<open>
  The two source files, \<^verbatim>\<open>hash-table-v1.c\<close> (one mutex for the table) and
  \<^verbatim>\<open>hash-table-v2.c\<close> (one mutex per bucket), are embedded side by side.

  A key is a \<^verbatim>\<open>const char *\<close>: an address into memory that the caller owns. The entries
  of the table keep that address (\<^verbatim>\<open>list_entry->key = key\<close>), so the memory the keys
  live in is part of the model: it maps an address to the C string stored there, or to
  \<open>None\<close> where no readable string is (a buffer that was released, or never allocated).
\<close>

type_synonym addr = nat

definition NULL :: addr where
  "NULL = 0"

type_synonym memory = "addr \<Rightarrow> string option"

text \<open>
  Every way a call can fail to return is a value:
  \<^item> \<open>Assertion_Failed\<close>: an \<^verbatim>\<open>assert\<close> of the source does not hold (the message is
    printed and the process aborts);
  \<^item> \<open>Exit_Failure\<close>: \<^verbatim>\<open>perror(...); exit(EXIT_FAILURE)\<close> after a pthread call that
    returned non-zero;
  \<^item> \<open>Null_Dereference\<close>: a write through a null pointer (undefined behaviour, nothing
    is reported by the program);
  \<^item> \<open>Invalid_Read\<close>: \<^verbatim>\<open>strcmp\<close> or the hash function reads a key address that holds
    no string (undefined behaviour);
  \<^item> \<open>Division_By_Zero\<close>: \<^verbatim>\<open>% HASH_TABLE_CAPACITY\<close> with a capacity of zero.
\<close>

datatype fault =
    Assertion_Failed
  | Exit_Failure
  | Null_Dereference
  | Invalid_Read
  | Division_By_Zero

text \<open>
  \<^verbatim>\<open>hash-table-base.h\<close> is not among the sources. What the two files take from it, the
  macro \<^verbatim>\<open>HASH_TABLE_CAPACITY\<close> and the function \<^verbatim>\<open>bernstein_hash\<close>, are parameters of
  the model: every function below takes them in a record, and the theorems about the table
  hold for every capacity and every hash function of the key's bytes.
\<close>

record hash_table_base =
  HASH_TABLE_CAPACITY :: nat
  bernstein_hash :: "string \<Rightarrow> 32 word"

text \<open>
  Modelled from the spec: the body of \<^verbatim>\<open>bernstein_hash\<close> (in the missing header). The spec
  gives the recurrence, \<^verbatim>\<open>accumulator = accumulator * 33 + byte\<close> on a 32-bit accumulator
  over the bytes of the key in order, "starting from a fixed non-zero seed"; it does not
  give the seed's value, which is therefore an argument.
\<close>

fun bernstein_hash_from :: "32 word \<Rightarrow> string \<Rightarrow> 32 word" where
  "bernstein_hash_from accumulator [] = accumulator"
| "bernstein_hash_from accumulator (byte # bytes) =
     bernstein_hash_from (accumulator * 33 + of_char byte) bytes"

section \<open>What both files share: entries, chains, pthread calls\<close>

text \<open>
  \<^verbatim>\<open>struct list_entry { const char *key; uint32_t value; SLIST_ENTRY(...) pointers; }\<close>.
  The chain \<^verbatim>\<open>SLIST_HEAD(list_head, list_entry)\<close> is the list of its entries from the
  head on; a pointer to an entry of a chain is its position in that list, and the null
  pointer is \<open>None\<close>.
\<close>

record list_entry =
  key :: addr
  val :: "32 word"

type_synonym list_head = "list_entry list"

text \<open>
  A mutex is zeroed memory after \<^verbatim>\<open>calloc\<close>, unlocked after \<^verbatim>\<open>pthread_mutex_init\<close>,
  locked between \<^verbatim>\<open>pthread_mutex_lock\<close> and \<^verbatim>\<open>pthread_mutex_unlock\<close>. Whether a pthread
  call succeeds is decided by the system: its return code is an input of the model. Only
  sequential runs are modelled, so a lock call never waits.
\<close>

datatype pthread_mutex_t = Mutex_Zeroed | Mutex_Unlocked | Mutex_Locked

text \<open>The system's answers during one call of \<^verbatim>\<open>add_entry\<close>.\<close>

record sys =
  lock_rc :: int
  calloc_ok :: bool
  unlock_rc :: int

definition sys_ok :: "sys \<Rightarrow> bool" where
  "sys_ok os = (lock_rc os = 0 \<and> calloc_ok os \<and> unlock_rc os = 0)"

text \<open>
  The loop of \<^verbatim>\<open>get_list_entry\<close>:
  \<^verbatim>\<open>SLIST_FOREACH(entry, list_head, pointers) { if (strcmp(entry->key, key) == 0) return entry; } return NULL;\<close>
  \<^verbatim>\<open>strcmp\<close> reads both strings; it returns 0 when they are equal.
\<close>

fun slist_foreach_strcmp :: "memory \<Rightarrow> addr \<Rightarrow> list_head \<Rightarrow> fault + nat option" where
  "slist_foreach_strcmp mem k [] = Inr None"
| "slist_foreach_strcmp mem k (entry # rest) =
     (case (mem (key entry), mem k) of
        (Some a, Some b) \<Rightarrow>
          if a = b then Inr (Some 0)
          else (case slist_foreach_strcmp mem k rest of
                  Inl f \<Rightarrow> Inl f
                | Inr None \<Rightarrow> Inr None
                | Inr (Some i) \<Rightarrow> Inr (Some (Suc i)))
      | _ \<Rightarrow> Inl Invalid_Read)"

section \<open>Variant A: \<^verbatim>\<open>hash-table-v1.c\<close>\<close>

record hash_table_entry_v1 =
  list_head_v1 :: list_head

record hash_table_v1 =
  entries_v1 :: "hash_table_entry_v1 list"
  mutex_v1 :: pthread_mutex_t

text \<open>The loop of \<^verbatim>\<open>hash_table_v1_create\<close>: \<^verbatim>\<open>SLIST_INIT\<close> on every bucket.\<close>

fun slist_init_v1 :: "nat list \<Rightarrow> hash_table_entry_v1 list \<Rightarrow> hash_table_entry_v1 list" where
  "slist_init_v1 [] es = es"
| "slist_init_v1 (i # is) es = slist_init_v1 is (es[i := (es ! i)\<lparr>list_head_v1 := []\<rparr>])"

definition hash_table_v1_create :: "hash_table_base \<Rightarrow> bool \<Rightarrow> int \<Rightarrow> fault + hash_table_v1" where
  "hash_table_v1_create B table_calloc_ok init_rc =
     (if \<not> table_calloc_ok then Inl Assertion_Failed
      else
        let zeroed = replicate (HASH_TABLE_CAPACITY B) \<lparr>list_head_v1 = []\<rparr>;
            es = slist_init_v1 [0 ..< HASH_TABLE_CAPACITY B] zeroed
        in if init_rc \<noteq> 0 then Inl Exit_Failure
           else Inr \<lparr>entries_v1 = es, mutex_v1 = Mutex_Unlocked\<rparr>)"

text \<open>
  \<^verbatim>\<open>get_hash_table_entry\<close> returns \<^verbatim>\<open>&hash_table->entries[index]\<close>: the model returns the
  index. It does not read the table.
\<close>

definition get_hash_table_entry_v1 :: "hash_table_base \<Rightarrow> memory \<Rightarrow> addr \<Rightarrow> fault + nat" where
  "get_hash_table_entry_v1 B mem k =
     (if k = NULL then Inl Assertion_Failed
      else case mem k of
        None \<Rightarrow> Inl Invalid_Read
      | Some s \<Rightarrow>
          if HASH_TABLE_CAPACITY B = 0 then Inl Division_By_Zero
          else Inr (unat (bernstein_hash B s) mod HASH_TABLE_CAPACITY B))"

definition get_list_entry_v1 :: "memory \<Rightarrow> addr \<Rightarrow> list_head \<Rightarrow> fault + nat option" where
  "get_list_entry_v1 mem k lh =
     (if k = NULL then Inl Assertion_Failed else slist_foreach_strcmp mem k lh)"

definition hash_table_v1_contains ::
  "hash_table_base \<Rightarrow> memory \<Rightarrow> hash_table_v1 \<Rightarrow> addr \<Rightarrow> fault + bool" where
  "hash_table_v1_contains B mem ht k =
     (case get_hash_table_entry_v1 B mem k of
        Inl f \<Rightarrow> Inl f
      | Inr idx \<Rightarrow>
          (case get_list_entry_v1 mem k (list_head_v1 (entries_v1 ht ! idx)) of
             Inl f \<Rightarrow> Inl f
           | Inr le \<Rightarrow> Inr (le \<noteq> None)))"

text \<open>Writing a bucket's chain back into the array (the chain is changed in place in C).\<close>

definition store_chain_v1 :: "hash_table_v1 \<Rightarrow> nat \<Rightarrow> list_head \<Rightarrow> hash_table_v1" where
  "store_chain_v1 ht idx lh =
     ht\<lparr>entries_v1 := (entries_v1 ht)[idx := (entries_v1 ht ! idx)\<lparr>list_head_v1 := lh\<rparr>]\<rparr>"

definition hash_table_v1_add_entry ::
  "hash_table_base \<Rightarrow> sys \<Rightarrow> memory \<Rightarrow> hash_table_v1 \<Rightarrow> addr \<Rightarrow> 32 word \<Rightarrow> fault + hash_table_v1" where
  "hash_table_v1_add_entry B os mem ht k v =
     (if lock_rc os \<noteq> 0 then Inl Exit_Failure
      else
        let ht = ht\<lparr>mutex_v1 := Mutex_Locked\<rparr> in
        case get_hash_table_entry_v1 B mem k of
          Inl f \<Rightarrow> Inl f
        | Inr idx \<Rightarrow>
            let lh = list_head_v1 (entries_v1 ht ! idx) in
            (case get_list_entry_v1 mem k lh of
               Inl f \<Rightarrow> Inl f
             | Inr (Some i) \<Rightarrow>
                 let ht = store_chain_v1 ht idx (lh[i := (lh ! i)\<lparr>val := v\<rparr>]) in
                 if unlock_rc os \<noteq> 0 then Inl Exit_Failure
                 else Inr (ht\<lparr>mutex_v1 := Mutex_Unlocked\<rparr>)
             | Inr None \<Rightarrow>
                 if \<not> calloc_ok os then Inl Null_Dereference
                 else
                   let ht = store_chain_v1 ht idx (\<lparr>key = k, val = v\<rparr> # lh) in
                   if unlock_rc os \<noteq> 0 then Inl Exit_Failure
                   else Inr (ht\<lparr>mutex_v1 := Mutex_Unlocked\<rparr>)))"

definition hash_table_v1_get_value ::
  "hash_table_base \<Rightarrow> memory \<Rightarrow> hash_table_v1 \<Rightarrow> addr \<Rightarrow> fault + 32 word" where
  "hash_table_v1_get_value B mem ht k =
     (case get_hash_table_entry_v1 B mem k of
        Inl f \<Rightarrow> Inl f
      | Inr idx \<Rightarrow>
          let lh = list_head_v1 (entries_v1 ht ! idx) in
          (case get_list_entry_v1 mem k lh of
             Inl f \<Rightarrow> Inl f
           | Inr None \<Rightarrow> Inl Assertion_Failed
           | Inr (Some i) \<Rightarrow> Inr (val (lh ! i))))"

section \<open>Variant B: \<^verbatim>\<open>hash-table-v2.c\<close>\<close>

record hash_table_entry_v2 =
  list_head_v2 :: list_head
  mutex_v2 :: pthread_mutex_t

record hash_table_v2 =
  entries_v2 :: "hash_table_entry_v2 list"

text \<open>
  The loop of \<^verbatim>\<open>hash_table_v2_create\<close>: \<^verbatim>\<open>SLIST_INIT\<close> and \<^verbatim>\<open>pthread_mutex_init\<close> on every
  bucket, leaving at the first initialisation that fails. \<open>init_rc i\<close> is the return code
  of the call for bucket \<open>i\<close>.
\<close>

fun bucket_init_v2 ::
  "(nat \<Rightarrow> int) \<Rightarrow> nat list \<Rightarrow> hash_table_entry_v2 list \<Rightarrow> fault + hash_table_entry_v2 list" where
  "bucket_init_v2 init_rc [] es = Inr es"
| "bucket_init_v2 init_rc (i # is) es =
     (let es = es[i := (es ! i)\<lparr>list_head_v2 := []\<rparr>] in
      if init_rc i \<noteq> 0 then Inl Exit_Failure
      else bucket_init_v2 init_rc is (es[i := (es ! i)\<lparr>mutex_v2 := Mutex_Unlocked\<rparr>]))"

definition hash_table_v2_create ::
  "hash_table_base \<Rightarrow> bool \<Rightarrow> (nat \<Rightarrow> int) \<Rightarrow> fault + hash_table_v2" where
  "hash_table_v2_create B table_calloc_ok init_rc =
     (if \<not> table_calloc_ok then Inl Assertion_Failed
      else
        let zeroed = replicate (HASH_TABLE_CAPACITY B) \<lparr>list_head_v2 = [], mutex_v2 = Mutex_Zeroed\<rparr>
        in case bucket_init_v2 init_rc [0 ..< HASH_TABLE_CAPACITY B] zeroed of
             Inl f \<Rightarrow> Inl f
           | Inr es \<Rightarrow> Inr \<lparr>entries_v2 = es\<rparr>)"

definition get_hash_table_entry_v2 :: "hash_table_base \<Rightarrow> memory \<Rightarrow> addr \<Rightarrow> fault + nat" where
  "get_hash_table_entry_v2 B mem k =
     (if k = NULL then Inl Assertion_Failed
      else case mem k of
        None \<Rightarrow> Inl Invalid_Read
      | Some s \<Rightarrow>
          if HASH_TABLE_CAPACITY B = 0 then Inl Division_By_Zero
          else Inr (unat (bernstein_hash B s) mod HASH_TABLE_CAPACITY B))"

definition get_list_entry_v2 :: "memory \<Rightarrow> addr \<Rightarrow> list_head \<Rightarrow> fault + nat option" where
  "get_list_entry_v2 mem k lh =
     (if k = NULL then Inl Assertion_Failed else slist_foreach_strcmp mem k lh)"

definition hash_table_v2_contains ::
  "hash_table_base \<Rightarrow> memory \<Rightarrow> hash_table_v2 \<Rightarrow> addr \<Rightarrow> fault + bool" where
  "hash_table_v2_contains B mem ht k =
     (case get_hash_table_entry_v2 B mem k of
        Inl f \<Rightarrow> Inl f
      | Inr idx \<Rightarrow>
          (case get_list_entry_v2 mem k (list_head_v2 (entries_v2 ht ! idx)) of
             Inl f \<Rightarrow> Inl f
           | Inr le \<Rightarrow> Inr (le \<noteq> None)))"

definition store_mutex_v2 :: "hash_table_v2 \<Rightarrow> nat \<Rightarrow> pthread_mutex_t \<Rightarrow> hash_table_v2" where
  "store_mutex_v2 ht idx m =
     ht\<lparr>entries_v2 := (entries_v2 ht)[idx := (entries_v2 ht ! idx)\<lparr>mutex_v2 := m\<rparr>]\<rparr>"

definition store_chain_v2 :: "hash_table_v2 \<Rightarrow> nat \<Rightarrow> list_head \<Rightarrow> hash_table_v2" where
  "store_chain_v2 ht idx lh =
     ht\<lparr>entries_v2 := (entries_v2 ht)[idx := (entries_v2 ht ! idx)\<lparr>list_head_v2 := lh\<rparr>]\<rparr>"

definition hash_table_v2_add_entry ::
  "hash_table_base \<Rightarrow> sys \<Rightarrow> memory \<Rightarrow> hash_table_v2 \<Rightarrow> addr \<Rightarrow> 32 word \<Rightarrow> fault + hash_table_v2" where
  "hash_table_v2_add_entry B os mem ht k v =
     (case get_hash_table_entry_v2 B mem k of
        Inl f \<Rightarrow> Inl f
      | Inr idx \<Rightarrow>
          if lock_rc os \<noteq> 0 then Inl Exit_Failure
          else
            let ht = store_mutex_v2 ht idx Mutex_Locked;
                lh = list_head_v2 (entries_v2 ht ! idx)
            in (case get_list_entry_v2 mem k lh of
                  Inl f \<Rightarrow> Inl f
                | Inr (Some i) \<Rightarrow>
                    let ht = store_chain_v2 ht idx (lh[i := (lh ! i)\<lparr>val := v\<rparr>]) in
                    if unlock_rc os \<noteq> 0 then Inl Exit_Failure
                    else Inr (store_mutex_v2 ht idx Mutex_Unlocked)
                | Inr None \<Rightarrow>
                    if \<not> calloc_ok os then Inl Null_Dereference
                    else
                      let ht = store_chain_v2 ht idx (\<lparr>key = k, val = v\<rparr> # lh) in
                      if unlock_rc os \<noteq> 0 then Inl Exit_Failure
                      else Inr (store_mutex_v2 ht idx Mutex_Unlocked)))"

definition hash_table_v2_get_value ::
  "hash_table_base \<Rightarrow> memory \<Rightarrow> hash_table_v2 \<Rightarrow> addr \<Rightarrow> fault + 32 word" where
  "hash_table_v2_get_value B mem ht k =
     (case get_hash_table_entry_v2 B mem k of
        Inl f \<Rightarrow> Inl f
      | Inr idx \<Rightarrow>
          let lh = list_head_v2 (entries_v2 ht ! idx) in
          (case get_list_entry_v2 mem k lh of
             Inl f \<Rightarrow> Inl f
           | Inr None \<Rightarrow> Inl Assertion_Failed
           | Inr (Some i) \<Rightarrow> Inr (val (lh ! i))))"

section \<open>Sequences of calls\<close>

text \<open>
  A sequence of \<^verbatim>\<open>add_entry\<close> calls on one table, each with the system's answers for that
  call; it stops at the first call that does not return.
\<close>

fun add_entries_v1 ::
  "hash_table_base \<Rightarrow> memory \<Rightarrow> hash_table_v1 \<Rightarrow> (sys \<times> addr \<times> 32 word) list \<Rightarrow> fault + hash_table_v1" where
  "add_entries_v1 B mem ht [] = Inr ht"
| "add_entries_v1 B mem ht ((os, k, v) # calls) =
     (case hash_table_v1_add_entry B os mem ht k v of
        Inl f \<Rightarrow> Inl f
      | Inr ht' \<Rightarrow> add_entries_v1 B mem ht' calls)"

fun add_entries_v2 ::
  "hash_table_base \<Rightarrow> memory \<Rightarrow> hash_table_v2 \<Rightarrow> (sys \<times> addr \<times> 32 word) list \<Rightarrow> fault + hash_table_v2" where
  "add_entries_v2 B mem ht [] = Inr ht"
| "add_entries_v2 B mem ht ((os, k, v) # calls) =
     (case hash_table_v2_add_entry B os mem ht k v of
        Inl f \<Rightarrow> Inl f
      | Inr ht' \<Rightarrow> add_entries_v2 B mem ht' calls)"

text \<open>
  A sequential client: it calls \<^verbatim>\<open>add_entry\<close>, \<^verbatim>\<open>contains\<close> and \<^verbatim>\<open>get_value\<close>, and between
  calls it may write or release one of its own key buffers. What it observes is the result
  of every \<^verbatim>\<open>contains\<close> and \<^verbatim>\<open>get_value\<close> call, in order, up to the call at which the
  process ends (if any does).
\<close>

datatype call =
    Add sys addr "32 word"
  | Contains addr
  | Get addr
  | Caller_Writes addr "string option"

datatype observation =
    Contains_Returned bool
  | Get_Returned "32 word"
  | Process_Ended fault

fun run_v1 :: "hash_table_base \<Rightarrow> memory \<Rightarrow> hash_table_v1 \<Rightarrow> call list \<Rightarrow> observation list" where
  "run_v1 B mem ht [] = []"
| "run_v1 B mem ht (Add os k v # calls) =
     (case hash_table_v1_add_entry B os mem ht k v of
        Inl f \<Rightarrow> []
      | Inr ht' \<Rightarrow> run_v1 B mem ht' calls)"
| "run_v1 B mem ht (Contains k # calls) =
     (case hash_table_v1_contains B mem ht k of
        Inl f \<Rightarrow> [Process_Ended f]
      | Inr b \<Rightarrow> Contains_Returned b # run_v1 B mem ht calls)"
| "run_v1 B mem ht (Get k # calls) =
     (case hash_table_v1_get_value B mem ht k of
        Inl f \<Rightarrow> [Process_Ended f]
      | Inr v \<Rightarrow> Get_Returned v # run_v1 B mem ht calls)"
| "run_v1 B mem ht (Caller_Writes p s # calls) = run_v1 B (mem(p := s)) ht calls"

fun run_v2 :: "hash_table_base \<Rightarrow> memory \<Rightarrow> hash_table_v2 \<Rightarrow> call list \<Rightarrow> observation list" where
  "run_v2 B mem ht [] = []"
| "run_v2 B mem ht (Add os k v # calls) =
     (case hash_table_v2_add_entry B os mem ht k v of
        Inl f \<Rightarrow> []
      | Inr ht' \<Rightarrow> run_v2 B mem ht' calls)"
| "run_v2 B mem ht (Contains k # calls) =
     (case hash_table_v2_contains B mem ht k of
        Inl f \<Rightarrow> [Process_Ended f]
      | Inr b \<Rightarrow> Contains_Returned b # run_v2 B mem ht calls)"
| "run_v2 B mem ht (Get k # calls) =
     (case hash_table_v2_get_value B mem ht k of
        Inl f \<Rightarrow> [Process_Ended f]
      | Inr v \<Rightarrow> Get_Returned v # run_v2 B mem ht calls)"
| "run_v2 B mem ht (Caller_Writes p s # calls) = run_v2 B (mem(p := s)) ht calls"

text \<open>
  The same client, followed to the state it leaves behind: the caller's memory and the table
  after the last call, or the fault at which the process ended.
\<close>

fun client_v1 ::
  "hash_table_base \<Rightarrow> memory \<Rightarrow> hash_table_v1 \<Rightarrow> call list \<Rightarrow> fault + memory \<times> hash_table_v1" where
  "client_v1 B mem ht [] = Inr (mem, ht)"
| "client_v1 B mem ht (Add os k v # calls) =
     (case hash_table_v1_add_entry B os mem ht k v of
        Inl f \<Rightarrow> Inl f
      | Inr ht' \<Rightarrow> client_v1 B mem ht' calls)"
| "client_v1 B mem ht (Contains k # calls) =
     (case hash_table_v1_contains B mem ht k of
        Inl f \<Rightarrow> Inl f
      | Inr b \<Rightarrow> client_v1 B mem ht calls)"
| "client_v1 B mem ht (Get k # calls) =
     (case hash_table_v1_get_value B mem ht k of
        Inl f \<Rightarrow> Inl f
      | Inr v \<Rightarrow> client_v1 B mem ht calls)"
| "client_v1 B mem ht (Caller_Writes p s # calls) = client_v1 B (mem(p := s)) ht calls"

fun client_v2 ::
  "hash_table_base \<Rightarrow> memory \<Rightarrow> hash_table_v2 \<Rightarrow> call list \<Rightarrow> fault + memory \<times> hash_table_v2" where
  "client_v2 B mem ht [] = Inr (mem, ht)"
| "client_v2 B mem ht (Add os k v # calls) =
     (case hash_table_v2_add_entry B os mem ht k v of
        Inl f \<Rightarrow> Inl f
      | Inr ht' \<Rightarrow> client_v2 B mem ht' calls)"
| "client_v2 B mem ht (Contains k # calls) =
     (case hash_table_v2_contains B mem ht k of
        Inl f \<Rightarrow> Inl f
      | Inr b \<Rightarrow> client_v2 B mem ht calls)"
| "client_v2 B mem ht (Get k # calls) =
     (case hash_table_v2_get_value B mem ht k of
        Inl f \<Rightarrow> Inl f
      | Inr v \<Rightarrow> client_v2 B mem ht calls)"
| "client_v2 B mem ht (Caller_Writes p s # calls) = client_v2 B (mem(p := s)) ht calls"

section \<open>Notions used in the statements\<close>

text \<open>The chains of a table, bucket by bucket.\<close>

definition chains_v1 :: "hash_table_v1 \<Rightarrow> list_head list" where
  "chains_v1 ht = map list_head_v1 (entries_v1 ht)"

definition chains_v2 :: "hash_table_v2 \<Rightarrow> list_head list" where
  "chains_v2 ht = map list_head_v2 (entries_v2 ht)"

text \<open>
  What \<^verbatim>\<open>add_entry\<close> does to the chain it works on, given what \<^verbatim>\<open>get_list_entry\<close> found:
  the value of the entry found is overwritten, or a new entry is put at the head.
\<close>

definition chain_put :: "addr \<Rightarrow> 32 word \<Rightarrow> nat option \<Rightarrow> list_head \<Rightarrow> list_head" where
  "chain_put k v found lh =
     (case found of
        Some i \<Rightarrow> lh[i := (lh ! i)\<lparr>val := v\<rparr>]
      | None \<Rightarrow> \<lparr>key = k, val = v\<rparr> # lh)"

text \<open>Every key address kept in a chain holds a string.\<close>

definition keys_readable :: "memory \<Rightarrow> list_head \<Rightarrow> bool" where
  "keys_readable mem lh = list_all (\<lambda>e. mem (key e) \<noteq> None) lh"

text \<open>
  The conditions under which a call of \<^verbatim>\<open>add_entry\<close> returns: the pthread calls and
  \<^verbatim>\<open>calloc\<close> succeed, the key is a non-null address of a string (and the capacity is not
  zero), and the keys of the bucket's chain are readable.
\<close>

definition call_ok_v1 :: "hash_table_base \<Rightarrow> sys \<Rightarrow> memory \<Rightarrow> hash_table_v1 \<Rightarrow> addr \<Rightarrow> bool" where
  "call_ok_v1 B os mem ht k =
     (sys_ok os \<and>
      (case get_hash_table_entry_v1 B mem k of
         Inl f \<Rightarrow> False
       | Inr idx \<Rightarrow> keys_readable mem (list_head_v1 (entries_v1 ht ! idx))))"

definition call_ok_v2 :: "hash_table_base \<Rightarrow> sys \<Rightarrow> memory \<Rightarrow> hash_table_v2 \<Rightarrow> addr \<Rightarrow> bool" where
  "call_ok_v2 B os mem ht k =
     (sys_ok os \<and>
      (case get_hash_table_entry_v2 B mem k of
         Inl f \<Rightarrow> False
       | Inr idx \<Rightarrow> keys_readable mem (list_head_v2 (entries_v2 ht ! idx))))"

text \<open>
  The invariant of a bucket \<open>i\<close>: no two entries of its chain have the same key string,
  and the key string of every entry hashes to \<open>i\<close>. The invariant of the table: it has
  \<^verbatim>\<open>HASH_TABLE_CAPACITY\<close> buckets and each has its invariant.
\<close>

definition bucket_inv :: "hash_table_base \<Rightarrow> memory \<Rightarrow> nat \<Rightarrow> list_head \<Rightarrow> bool" where
  "bucket_inv B mem i lh =
     (distinct (map (\<lambda>e. mem (key e)) lh) \<and>
      list_all (\<lambda>e. case mem (key e) of
                      None \<Rightarrow> False
                    | Some s \<Rightarrow> unat (bernstein_hash B s) mod HASH_TABLE_CAPACITY B = i) lh)"

definition table_inv :: "hash_table_base \<Rightarrow> memory \<Rightarrow> list_head list \<Rightarrow> bool" where
  "table_inv B mem buckets =
     (length buckets = HASH_TABLE_CAPACITY B \<and>
      list_all (\<lambda>i. bucket_inv B mem i (buckets ! i)) [0 ..< HASH_TABLE_CAPACITY B])"

text \<open>The entries of the whole table whose key string is the one at address \<open>k\<close>.\<close>

definition entries_for :: "memory \<Rightarrow> addr \<Rightarrow> list_head list \<Rightarrow> list_entry list" where
  "entries_for mem k buckets = filter (\<lambda>e. mem (key e) = mem k) (concat buckets)"

text \<open>
  A caller's write of \<open>s\<close> to the buffer at \<open>p\<close> leaves the keys of the table alone when
  every key address kept in an entry holds the same bytes after the write as before. A
  sequence of calls spares the keys when each of its writes does, at the moment it happens.
\<close>

definition keys_left_alone :: "memory \<Rightarrow> list_head list \<Rightarrow> addr \<Rightarrow> string option \<Rightarrow> bool" where
  "keys_left_alone mem buckets p s =
     list_all (\<lambda>e. (mem(p := s)) (key e) = mem (key e)) (concat buckets)"

fun writes_spare_keys_v1 ::
  "hash_table_base \<Rightarrow> memory \<Rightarrow> hash_table_v1 \<Rightarrow> call list \<Rightarrow> bool" where
  "writes_spare_keys_v1 B mem ht [] = True"
| "writes_spare_keys_v1 B mem ht (Add os k v # calls) =
     (case hash_table_v1_add_entry B os mem ht k v of
        Inl f \<Rightarrow> True
      | Inr ht' \<Rightarrow> writes_spare_keys_v1 B mem ht' calls)"
| "writes_spare_keys_v1 B mem ht (Contains k # calls) = writes_spare_keys_v1 B mem ht calls"
| "writes_spare_keys_v1 B mem ht (Get k # calls) = writes_spare_keys_v1 B mem ht calls"
| "writes_spare_keys_v1 B mem ht (Caller_Writes p s # calls) =
     (keys_left_alone mem (chains_v1 ht) p s \<and> writes_spare_keys_v1 B (mem(p := s)) ht calls)"

fun writes_spare_keys_v2 ::
  "hash_table_base \<Rightarrow> memory \<Rightarrow> hash_table_v2 \<Rightarrow> call list \<Rightarrow> bool" where
  "writes_spare_keys_v2 B mem ht [] = True"
| "writes_spare_keys_v2 B mem ht (Add os k v # calls) =
     (case hash_table_v2_add_entry B os mem ht k v of
        Inl f \<Rightarrow> True
      | Inr ht' \<Rightarrow> writes_spare_keys_v2 B mem ht' calls)"
| "writes_spare_keys_v2 B mem ht (Contains k # calls) = writes_spare_keys_v2 B mem ht calls"
| "writes_spare_keys_v2 B mem ht (Get k # calls) = writes_spare_keys_v2 B mem ht calls"
| "writes_spare_keys_v2 B mem ht (Caller_Writes p s # calls) =
     (keys_left_alone mem (chains_v2 ht) p s \<and> writes_spare_keys_v2 B (mem(p := s)) ht calls)"

section \<open>A small instance\<close>

text \<open>
  Four buckets, the hash with the seed 5381, and a caller's memory with four key buffers:
  the strings at 16 and 48 are equal. With these, \<open>''alice''\<close> goes to bucket 3,
  \<open>''bob''\<close> to bucket 0 and \<open>''carol''\<close> to bucket 2.
\<close>

definition example_base :: hash_table_base where
  "example_base = \<lparr>HASH_TABLE_CAPACITY = 4, bernstein_hash = bernstein_hash_from 5381\<rparr>"

definition example_mem :: memory where
  "example_mem = [16 \<mapsto> ''alice'', 32 \<mapsto> ''bob'', 48 \<mapsto> ''alice'', 64 \<mapsto> ''carol'']"

definition example_sys :: sys where
  "example_sys = \<lparr>lock_rc = 0, calloc_ok = True, unlock_rc = 0\<rparr>"

definition empty_v1 :: hash_table_v1 where
  "empty_v1 =
     \<lparr>entries_v1 = [\<lparr>list_head_v1 = []\<rparr>, \<lparr>list_head_v1 = []\<rparr>, \<lparr>list_head_v1 = []\<rparr>,
                    \<lparr>list_head_v1 = []\<rparr>],
      mutex_v1 = Mutex_Unlocked\<rparr>"

definition empty_v2 :: hash_table_v2 where
  "empty_v2 =
     \<lparr>entries_v2 = [\<lparr>list_head_v2 = [], mutex_v2 = Mutex_Unlocked\<rparr>,
                    \<lparr>list_head_v2 = [], mutex_v2 = Mutex_Unlocked\<rparr>,
                    \<lparr>list_head_v2 = [], mutex_v2 = Mutex_Unlocked\<rparr>,
                    \<lparr>list_head_v2 = [], mutex_v2 = Mutex_Unlocked\<rparr>]\<rparr>"

text \<open>Every \<^verbatim>\<open>pthread_mutex_init\<close> of \<^verbatim>\<open>hash_table_v2_create\<close> succeeds.\<close>

definition example_init_rc :: "nat \<Rightarrow> int" where
  "example_init_rc i = 0"

text \<open>The two tables after \<^verbatim>\<open>add_entry(table, 16, 7)\<close>, that is \<open>''alice''\<close> \<open>\<mapsto>\<close> 7.\<close>

definition alice_v1 :: hash_table_v1 where
  "alice_v1 =
     \<lparr>entries_v1 = [\<lparr>list_head_v1 = []\<rparr>, \<lparr>list_head_v1 = []\<rparr>, \<lparr>list_head_v1 = []\<rparr>,
                    \<lparr>list_head_v1 = [\<lparr>key = 16, val = 7\<rparr>]\<rparr>],
      mutex_v1 = Mutex_Unlocked\<rparr>"

definition alice_v2 :: hash_table_v2 where
  "alice_v2 =
     \<lparr>entries_v2 = [\<lparr>list_head_v2 = [], mutex_v2 = Mutex_Unlocked\<rparr>,
                    \<lparr>list_head_v2 = [], mutex_v2 = Mutex_Unlocked\<rparr>,
                    \<lparr>list_head_v2 = [], mutex_v2 = Mutex_Unlocked\<rparr>,
                    \<lparr>list_head_v2 = [\<lparr>key = 16, val = 7\<rparr>], mutex_v2 = Mutex_Unlocked\<rparr>]\<rparr>"

text \<open>The two tables after a second call, \<^verbatim>\<open>add_entry(table, 48, 9)\<close>: \<open>''alice''\<close> \<open>\<mapsto>\<close> 9.\<close>

definition alice_again_v1 :: hash_table_v1 where
  "alice_again_v1 =
     \<lparr>entries_v1 = [\<lparr>list_head_v1 = []\<rparr>, \<lparr>list_head_v1 = []\<rparr>, \<lparr>list_head_v1 = []\<rparr>,
                    \<lparr>list_head_v1 = [\<lparr>key = 16, val = 9\<rparr>]\<rparr>],
      mutex_v1 = Mutex_Unlocked\<rparr>"

definition alice_again_v2 :: hash_table_v2 where
  "alice_again_v2 =
     \<lparr>entries_v2 = [\<lparr>list_head_v2 = [], mutex_v2 = Mutex_Unlocked\<rparr>,
                    \<lparr>list_head_v2 = [], mutex_v2 = Mutex_Unlocked\<rparr>,
                    \<lparr>list_head_v2 = [], mutex_v2 = Mutex_Unlocked\<rparr>,
                    \<lparr>list_head_v2 = [\<lparr>key = 16, val = 9\<rparr>], mutex_v2 = Mutex_Unlocked\<rparr>]\<rparr>"

text \<open>
  Tables reached with caller writes in between. \<open>twice\<close>: \<open>''alice''\<close> inserted from the
  buffer at 16, that buffer overwritten, \<open>''alice''\<close> inserted again from the buffer at 48.
  \<open>busy\<close>: the table after \<open>busy_calls\<close>, in which the caller fills a new buffer at 80
  and bucket 2 receives two different keys.
\<close>

definition twice_v1 :: hash_table_v1 where
  "twice_v1 =
     \<lparr>entries_v1 = [\<lparr>list_head_v1 = []\<rparr>, \<lparr>list_head_v1 = []\<rparr>, \<lparr>list_head_v1 = []\<rparr>,
                    \<lparr>list_head_v1 = [\<lparr>key = 48, val = 9\<rparr>, \<lparr>key = 16, val = 7\<rparr>]\<rparr>],
      mutex_v1 = Mutex_Unlocked\<rparr>"

definition twice_v2 :: hash_table_v2 where
  "twice_v2 =
     \<lparr>entries_v2 = [\<lparr>list_head_v2 = [], mutex_v2 = Mutex_Unlocked\<rparr>,
                    \<lparr>list_head_v2 = [], mutex_v2 = Mutex_Unlocked\<rparr>,
                    \<lparr>list_head_v2 = [], mutex_v2 = Mutex_Unlocked\<rparr>,
                    \<lparr>list_head_v2 = [\<lparr>key = 48, val = 9\<rparr>, \<lparr>key = 16, val = 7\<rparr>],
                     mutex_v2 = Mutex_Unlocked\<rparr>]\<rparr>"

definition busy_v1 :: hash_table_v1 where
  "busy_v1 =
     \<lparr>entries_v1 = [\<lparr>list_head_v1 = []\<rparr>, \<lparr>list_head_v1 = []\<rparr>,
                    \<lparr>list_head_v1 = [\<lparr>key = 80, val = 4\<rparr>, \<lparr>key = 64, val = 3\<rparr>]\<rparr>,
                    \<lparr>list_head_v1 = [\<lparr>key = 16, val = 9\<rparr>]\<rparr>],
      mutex_v1 = Mutex_Unlocked\<rparr>"

definition busy_v2 :: hash_table_v2 where
  "busy_v2 =
     \<lparr>entries_v2 = [\<lparr>list_head_v2 = [], mutex_v2 = Mutex_Unlocked\<rparr>,
                    \<lparr>list_head_v2 = [], mutex_v2 = Mutex_Unlocked\<rparr>,
                    \<lparr>list_head_v2 = [\<lparr>key = 80, val = 4\<rparr>, \<lparr>key = 64, val = 3\<rparr>],
                     mutex_v2 = Mutex_Unlocked\<rparr>,
                    \<lparr>list_head_v2 = [\<lparr>key = 16, val = 9\<rparr>], mutex_v2 = Mutex_Unlocked\<rparr>]\<rparr>"

definition busy_calls :: "call list" where
  "busy_calls =
     [Add example_sys 16 7, Caller_Writes 80 (Some ''a''), Add example_sys 48 9,
      Add example_sys 64 3, Add example_sys 80 4, Contains 16]"

section \<open>Scanning and changing a chain\<close>

lemma slist_foreach_strcmp_keys:
  "map key lh = map key lh' \<Longrightarrow> slist_foreach_strcmp mem k lh = slist_foreach_strcmp mem k lh'"
proof (induction lh arbitrary: lh')
  case Nil
  then show ?case by simp
next
  case (Cons e es)
  then obtain e' es' where lh': "lh' = e' # es'" and ke: "key e = key e'" and r: "map key es = map key es'"
    by (cases lh') auto
  from Cons.IH [OF r] show ?case
    by (auto simp: lh' ke split: option.splits)
qed


lemma slist_foreach_strcmp_Some:
  "slist_foreach_strcmp mem k lh = Inr (Some i) \<Longrightarrow>
     i < length lh \<and> mem (key (lh ! i)) = mem k \<and> mem k \<noteq> None
     \<and> (\<forall>j<i. mem (key (lh ! j)) \<noteq> mem k)"
proof (induction lh arbitrary: i)
  case Nil
  then show ?case by simp
next
  case (Cons e es)
  show ?case
  proof (cases "mem (key e) = mem k")
    case True
    with Cons.prems show ?thesis
      by (auto split: option.splits)
  next
    case False
    with Cons.prems obtain i' where i: "i = Suc i'" and r: "slist_foreach_strcmp mem k es = Inr (Some i')"
      by (auto split: option.splits sum.splits if_splits)
    from Cons.IH [OF r] False show ?thesis
      by (auto simp: i less_Suc_eq_0_disj)
  qed
qed

lemma slist_foreach_strcmp_None:
  "slist_foreach_strcmp mem k lh = Inr None \<Longrightarrow>
     (\<forall>e \<in> set lh. mem (key e) \<noteq> mem k \<and> mem (key e) \<noteq> None)"
  by (induction lh) (auto split: option.splits sum.splits if_splits)

lemma slist_foreach_strcmp_update:
  "slist_foreach_strcmp mem k (lh[i := (lh ! i)\<lparr>val := v\<rparr>]) = slist_foreach_strcmp mem k lh"
proof (rule slist_foreach_strcmp_keys)
  show "map key (lh[i := (lh ! i)\<lparr>val := v\<rparr>]) = map key lh"
  proof (cases "i < length lh")
    case True
    then have "(map key lh)[i := key (lh ! i)] = map key lh"
      by (metis list_update_id nth_map)
    then show ?thesis by (simp add: map_update)
  next
    case False
    then have "lh[i := (lh ! i)\<lparr>val := v\<rparr>] = lh"
      by (meson list_update_beyond not_less)
    then show ?thesis by simp
  qed
qed

lemma chain_put_found:
  assumes "slist_foreach_strcmp mem k lh = Inr found" and "mem k \<noteq> None"
  shows "\<exists>j. slist_foreach_strcmp mem k (chain_put k v found lh) = Inr (Some j)
             \<and> j < length (chain_put k v found lh)
             \<and> val (chain_put k v found lh ! j) = v"
proof (cases found)
  case None
  with assms(2) show ?thesis
    by (auto simp: chain_put_def)
next
  case (Some i)
  with assms(1) have "i < length lh"
    by (auto dest: slist_foreach_strcmp_Some)
  with Some assms(1) show ?thesis
    by (auto simp: chain_put_def slist_foreach_strcmp_update)
qed

lemma get_hash_table_entry_v1_Inr:
  "get_hash_table_entry_v1 B mem k = Inr idx \<longleftrightarrow>
     k \<noteq> NULL \<and> 0 < HASH_TABLE_CAPACITY B
     \<and> (\<exists>s. mem k = Some s \<and> idx = unat (bernstein_hash B s) mod HASH_TABLE_CAPACITY B)"
  by (auto simp: get_hash_table_entry_v1_def split: option.splits)

lemma get_hash_table_entry_v2_Inr:
  "get_hash_table_entry_v2 B mem k = Inr idx \<longleftrightarrow>
     k \<noteq> NULL \<and> 0 < HASH_TABLE_CAPACITY B
     \<and> (\<exists>s. mem k = Some s \<and> idx = unat (bernstein_hash B s) mod HASH_TABLE_CAPACITY B)"
  by (auto simp: get_hash_table_entry_v2_def split: option.splits)

lemma v1_add_entry_Inr:
  assumes "hash_table_v1_add_entry B os mem ht k v = Inr ht'"
    and "length (entries_v1 ht) = HASH_TABLE_CAPACITY B"
  shows "\<exists>idx found.
           get_hash_table_entry_v1 B mem k = Inr idx
         \<and> slist_foreach_strcmp mem k (chains_v1 ht ! idx) = Inr found
         \<and> chains_v1 ht' = (chains_v1 ht)[idx := chain_put k v found (chains_v1 ht ! idx)]
         \<and> mutex_v1 ht' = Mutex_Unlocked
         \<and> lock_rc os = 0 \<and> unlock_rc os = 0 \<and> (found = None \<longrightarrow> calloc_ok os)"
proof -
  from assms(1) obtain idx where idx: "get_hash_table_entry_v1 B mem k = Inr idx"
    by (auto simp: hash_table_v1_add_entry_def Let_def split: if_splits sum.splits)
  then have lt: "idx < length (entries_v1 ht)" and nn: "k \<noteq> NULL"
    by (auto simp: get_hash_table_entry_v1_Inr assms(2))
  from lt have ch: "list_head_v1 (entries_v1 ht ! idx) = chains_v1 ht ! idx"
    by (simp add: chains_v1_def)
  from assms(1) idx nn ch lt show ?thesis
    by (auto simp: hash_table_v1_add_entry_def get_list_entry_v1_def store_chain_v1_def
          chains_v1_def chain_put_def Let_def map_update
        split: if_splits sum.splits option.splits)
qed

lemma v2_add_entry_Inr:
  assumes "hash_table_v2_add_entry B os mem ht k v = Inr ht'"
    and "length (entries_v2 ht) = HASH_TABLE_CAPACITY B"
  shows "\<exists>idx found.
           get_hash_table_entry_v2 B mem k = Inr idx
         \<and> slist_foreach_strcmp mem k (chains_v2 ht ! idx) = Inr found
         \<and> chains_v2 ht' = (chains_v2 ht)[idx := chain_put k v found (chains_v2 ht ! idx)]
         \<and> map mutex_v2 (entries_v2 ht') = (map mutex_v2 (entries_v2 ht))[idx := Mutex_Unlocked]
         \<and> lock_rc os = 0 \<and> unlock_rc os = 0 \<and> (found = None \<longrightarrow> calloc_ok os)"
proof -
  from assms(1) obtain idx where idx: "get_hash_table_entry_v2 B mem k = Inr idx"
    by (auto simp: hash_table_v2_add_entry_def Let_def split: if_splits sum.splits)
  then have lt: "idx < length (entries_v2 ht)" and nn: "k \<noteq> NULL"
    by (auto simp: get_hash_table_entry_v2_Inr assms(2))
  from lt have ch: "list_head_v2 (entries_v2 ht ! idx) = chains_v2 ht ! idx"
    by (simp add: chains_v2_def)
  from assms(1) idx nn ch lt show ?thesis
    by (auto simp: hash_table_v2_add_entry_def get_list_entry_v2_def store_chain_v2_def
          store_mutex_v2_def chains_v2_def chain_put_def Let_def map_update
        split: if_splits sum.splits option.splits)
qed

lemma slist_foreach_strcmp_returns:
  "mem k \<noteq> None \<Longrightarrow> keys_readable mem lh \<Longrightarrow> \<exists>found. slist_foreach_strcmp mem k lh = Inr found"
  by (induction lh) (auto simp: keys_readable_def split: option.splits)

lemma v1_add_entry_returns:
  assumes "sys_ok os" and "get_hash_table_entry_v1 B mem k = Inr idx"
    and "keys_readable mem (list_head_v1 (entries_v1 ht ! idx))"
  shows "\<exists>ht'. hash_table_v1_add_entry B os mem ht k v = Inr ht'"
proof -
  from assms(2) have "k \<noteq> NULL" "mem k \<noteq> None"
    by (auto simp: get_hash_table_entry_v1_Inr)
  with assms(3) obtain found
    where "slist_foreach_strcmp mem k (list_head_v1 (entries_v1 ht ! idx)) = Inr found"
    using slist_foreach_strcmp_returns by blast
  with assms(1,2) \<open>k \<noteq> NULL\<close> show ?thesis
    by (cases found)
      (simp_all add: hash_table_v1_add_entry_def get_list_entry_v1_def sys_ok_def Let_def)
qed

lemma v2_add_entry_returns:
  assumes "sys_ok os" and "get_hash_table_entry_v2 B mem k = Inr idx"
    and "keys_readable mem (list_head_v2 (entries_v2 ht ! idx))"
  shows "\<exists>ht'. hash_table_v2_add_entry B os mem ht k v = Inr ht'"
proof -
  from assms(2) have nn: "k \<noteq> NULL" "mem k \<noteq> None"
    by (auto simp: get_hash_table_entry_v2_Inr)
  have "list_head_v2 (entries_v2 (store_mutex_v2 ht idx Mutex_Locked) ! idx)
          = list_head_v2 (entries_v2 ht ! idx)"
    by (cases "idx < length (entries_v2 ht)") (simp_all add: store_mutex_v2_def not_less list_update_beyond)
  moreover from nn assms(3) obtain found
    where "slist_foreach_strcmp mem k (list_head_v2 (entries_v2 ht ! idx)) = Inr found"
    using slist_foreach_strcmp_returns by blast
  ultimately show ?thesis
    using assms(1,2) nn(1)
    by (cases found)
      (simp_all add: hash_table_v2_add_entry_def get_list_entry_v2_def sys_ok_def Let_def)
qed

lemma v1_lookup_chains:
  assumes "get_hash_table_entry_v1 B mem k = Inr idx" and "idx < length (entries_v1 ht)"
  shows "hash_table_v1_contains B mem ht k =
           (case slist_foreach_strcmp mem k (chains_v1 ht ! idx) of
              Inl f \<Rightarrow> Inl f | Inr found \<Rightarrow> Inr (found \<noteq> None))"
    and "hash_table_v1_get_value B mem ht k =
           (case slist_foreach_strcmp mem k (chains_v1 ht ! idx) of
              Inl f \<Rightarrow> Inl f
            | Inr None \<Rightarrow> Inl Assertion_Failed
            | Inr (Some i) \<Rightarrow> Inr (val (chains_v1 ht ! idx ! i)))"
proof -
  from assms(1) have "k \<noteq> NULL"
    by (simp add: get_hash_table_entry_v1_Inr)
  with assms show
    "hash_table_v1_contains B mem ht k =
           (case slist_foreach_strcmp mem k (chains_v1 ht ! idx) of
              Inl f \<Rightarrow> Inl f | Inr found \<Rightarrow> Inr (found \<noteq> None))"
    by (simp add: hash_table_v1_contains_def chains_v1_def get_list_entry_v1_def)
  from assms \<open>k \<noteq> NULL\<close> show
    "hash_table_v1_get_value B mem ht k =
           (case slist_foreach_strcmp mem k (chains_v1 ht ! idx) of
              Inl f \<Rightarrow> Inl f
            | Inr None \<Rightarrow> Inl Assertion_Failed
            | Inr (Some i) \<Rightarrow> Inr (val (chains_v1 ht ! idx ! i)))"
    by (simp add: hash_table_v1_get_value_def chains_v1_def get_list_entry_v1_def Let_def
          split: sum.splits option.splits)
qed

lemma v2_lookup_chains:
  assumes "get_hash_table_entry_v2 B mem k = Inr idx" and "idx < length (entries_v2 ht)"
  shows "hash_table_v2_contains B mem ht k =
           (case slist_foreach_strcmp mem k (chains_v2 ht ! idx) of
              Inl f \<Rightarrow> Inl f | Inr found \<Rightarrow> Inr (found \<noteq> None))"
    and "hash_table_v2_get_value B mem ht k =
           (case slist_foreach_strcmp mem k (chains_v2 ht ! idx) of
              Inl f \<Rightarrow> Inl f
            | Inr None \<Rightarrow> Inl Assertion_Failed
            | Inr (Some i) \<Rightarrow> Inr (val (chains_v2 ht ! idx ! i)))"
proof -
  from assms(1) have "k \<noteq> NULL"
    by (simp add: get_hash_table_entry_v2_Inr)
  with assms show
    "hash_table_v2_contains B mem ht k =
           (case slist_foreach_strcmp mem k (chains_v2 ht ! idx) of
              Inl f \<Rightarrow> Inl f | Inr found \<Rightarrow> Inr (found \<noteq> None))"
    by (simp add: hash_table_v2_contains_def chains_v2_def get_list_entry_v2_def)
  from assms \<open>k \<noteq> NULL\<close> show
    "hash_table_v2_get_value B mem ht k =
           (case slist_foreach_strcmp mem k (chains_v2 ht ! idx) of
              Inl f \<Rightarrow> Inl f
            | Inr None \<Rightarrow> Inl Assertion_Failed
            | Inr (Some i) \<Rightarrow> Inr (val (chains_v2 ht ! idx ! i)))"
    by (simp add: hash_table_v2_get_value_def chains_v2_def get_list_entry_v2_def Let_def
          split: sum.splits option.splits)
qed

lemma chains_v1_length [simp]: "length (chains_v1 ht) = length (entries_v1 ht)"
  by (simp add: chains_v1_def)

lemma chains_v2_length [simp]: "length (chains_v2 ht) = length (entries_v2 ht)"
  by (simp add: chains_v2_def)

lemma v1_insert_then_lookup:
  assumes "length (entries_v1 a) = HASH_TABLE_CAPACITY B"
    and "hash_table_v1_add_entry B os mem a k v = Inr a'"
  shows "hash_table_v1_contains B mem a' k = Inr True \<and> hash_table_v1_get_value B mem a' k = Inr v"
proof -
  from v1_add_entry_Inr [OF assms(2,1)] obtain idx found where
    idx: "get_hash_table_entry_v1 B mem k = Inr idx"
    and found: "slist_foreach_strcmp mem k (chains_v1 a ! idx) = Inr found"
    and ch: "chains_v1 a' = (chains_v1 a)[idx := chain_put k v found (chains_v1 a ! idx)]"
    by blast
  from idx have lt: "idx < length (entries_v1 a)" and rd: "mem k \<noteq> None"
    by (auto simp: get_hash_table_entry_v1_Inr assms(1))
  from ch have len: "length (entries_v1 a') = length (entries_v1 a)"
    by (metis chains_v1_length length_list_update)
  from ch lt have at: "chains_v1 a' ! idx = chain_put k v found (chains_v1 a ! idx)"
    by simp
  from chain_put_found [OF found rd, of v] obtain j where
    "slist_foreach_strcmp mem k (chains_v1 a' ! idx) = Inr (Some j)"
    "val (chains_v1 a' ! idx ! j) = v"
    unfolding at by blast
  then show ?thesis
    using idx lt len by (simp add: v1_lookup_chains)
qed

lemma v2_insert_then_lookup:
  assumes "length (entries_v2 a) = HASH_TABLE_CAPACITY B"
    and "hash_table_v2_add_entry B os mem a k v = Inr a'"
  shows "hash_table_v2_contains B mem a' k = Inr True \<and> hash_table_v2_get_value B mem a' k = Inr v"
proof -
  from v2_add_entry_Inr [OF assms(2,1)] obtain idx found where
    idx: "get_hash_table_entry_v2 B mem k = Inr idx"
    and found: "slist_foreach_strcmp mem k (chains_v2 a ! idx) = Inr found"
    and ch: "chains_v2 a' = (chains_v2 a)[idx := chain_put k v found (chains_v2 a ! idx)]"
    by blast
  from idx have lt: "idx < length (entries_v2 a)" and rd: "mem k \<noteq> None"
    by (auto simp: get_hash_table_entry_v2_Inr assms(1))
  from ch have len: "length (entries_v2 a') = length (entries_v2 a)"
    by (metis chains_v2_length length_list_update)
  from ch lt have at: "chains_v2 a' ! idx = chain_put k v found (chains_v2 a ! idx)"
    by simp
  from chain_put_found [OF found rd, of v] obtain j where
    "slist_foreach_strcmp mem k (chains_v2 a' ! idx) = Inr (Some j)"
    "val (chains_v2 a' ! idx ! j) = v"
    unfolding at by blast
  then show ?thesis
    using idx lt len by (simp add: v2_lookup_chains)
qed

lemma slist_foreach_strcmp_fault:
  "slist_foreach_strcmp mem k lh = Inl f \<Longrightarrow> f = Invalid_Read"
  by (induction lh arbitrary: f) (auto split: option.splits sum.splits if_splits)

lemma bernstein_hash_from_append:
  "bernstein_hash_from acc (xs @ ys) = bernstein_hash_from (bernstein_hash_from acc xs) ys"
  by (induction xs arbitrary: acc) simp_all

lemma slist_foreach_strcmp_mem_cong:
  "\<forall>e \<in> set lh. mem' (key e) = mem (key e) \<Longrightarrow> mem' k' = mem k
     \<Longrightarrow> slist_foreach_strcmp mem' k' lh = slist_foreach_strcmp mem k lh"
  by (induction lh) (auto split: option.splits)

lemma v1_lookup_after_add:
  assumes len: "length (entries_v1 a) = HASH_TABLE_CAPACITY B"
    and add: "hash_table_v1_add_entry B os mem a k v = Inr a'"
  shows "\<exists>idx. get_hash_table_entry_v1 B mem k = Inr idx
     \<and> (get_list_entry_v1 mem k (list_head_v1 (entries_v1 a ! idx)) = Inr None \<longrightarrow>
          list_head_v1 (entries_v1 a' ! idx)
            = \<lparr>key = k, val = v\<rparr> # list_head_v1 (entries_v1 a ! idx))
     \<and> (\<forall>mem' k'. k' \<noteq> NULL \<and> mem' k' = mem k
            \<and> (\<forall>e \<in> set (list_head_v1 (entries_v1 a' ! idx)). mem' (key e) = mem (key e)) \<longrightarrow>
            hash_table_v1_contains B mem' a' k' = Inr True
          \<and> hash_table_v1_get_value B mem' a' k' = Inr v)"
proof -
  from v1_add_entry_Inr [OF add len] obtain idx found where
    idx: "get_hash_table_entry_v1 B mem k = Inr idx"
    and found: "slist_foreach_strcmp mem k (chains_v1 a ! idx) = Inr found"
    and ch: "chains_v1 a' = (chains_v1 a)[idx := chain_put k v found (chains_v1 a ! idx)]"
    by blast
  from idx have lt: "idx < length (entries_v1 a)" and rd: "mem k \<noteq> None" and nn: "k \<noteq> NULL"
    by (auto simp: get_hash_table_entry_v1_Inr len)
  from ch have len': "length (entries_v1 a') = length (entries_v1 a)"
    by (metis chains_v1_length length_list_update)
  from ch lt have at: "chains_v1 a' ! idx = chain_put k v found (chains_v1 a ! idx)"
    by simp
  from lt len' have v: "list_head_v1 (entries_v1 a' ! idx) = chains_v1 a' ! idx"
    "list_head_v1 (entries_v1 a ! idx) = chains_v1 a ! idx"
    by (simp_all add: chains_v1_def)
  from chain_put_found [OF found rd, of v] obtain j where
    j: "slist_foreach_strcmp mem k (chains_v1 a' ! idx) = Inr (Some j)"
    "val (chains_v1 a' ! idx ! j) = v"
    unfolding at by blast
  have new: "list_head_v1 (entries_v1 a' ! idx) = \<lparr>key = k, val = v\<rparr> # list_head_v1 (entries_v1 a ! idx)"
    if "get_list_entry_v1 mem k (list_head_v1 (entries_v1 a ! idx)) = Inr None"
    using that found nn by (simp add: v at get_list_entry_v1_def chain_put_def)
  have look: "hash_table_v1_contains B mem' a' k' = Inr True
          \<and> hash_table_v1_get_value B mem' a' k' = Inr v"
    if "k' \<noteq> NULL" "mem' k' = mem k"
      "\<forall>e \<in> set (list_head_v1 (entries_v1 a' ! idx)). mem' (key e) = mem (key e)"
    for mem' k'
  proof -
    from that(1,2) idx have idx': "get_hash_table_entry_v1 B mem' k' = Inr idx"
      by (auto simp: get_hash_table_entry_v1_Inr)
    from that(2,3) have "slist_foreach_strcmp mem' k' (chains_v1 a' ! idx)
        = slist_foreach_strcmp mem k (chains_v1 a' ! idx)"
      by (intro slist_foreach_strcmp_mem_cong) (simp_all add: v)
    with j idx' lt len' show ?thesis
      by (simp add: v1_lookup_chains)
  qed
  from idx new look show ?thesis by blast
qed

lemma v2_lookup_after_add:
  assumes len: "length (entries_v2 a) = HASH_TABLE_CAPACITY B"
    and add: "hash_table_v2_add_entry B os mem a k v = Inr a'"
  shows "\<exists>idx. get_hash_table_entry_v2 B mem k = Inr idx
     \<and> (get_list_entry_v2 mem k (list_head_v2 (entries_v2 a ! idx)) = Inr None \<longrightarrow>
          list_head_v2 (entries_v2 a' ! idx)
            = \<lparr>key = k, val = v\<rparr> # list_head_v2 (entries_v2 a ! idx))
     \<and> (\<forall>mem' k'. k' \<noteq> NULL \<and> mem' k' = mem k
            \<and> (\<forall>e \<in> set (list_head_v2 (entries_v2 a' ! idx)). mem' (key e) = mem (key e)) \<longrightarrow>
            hash_table_v2_contains B mem' a' k' = Inr True
          \<and> hash_table_v2_get_value B mem' a' k' = Inr v)"
proof -
  from v2_add_entry_Inr [OF add len] obtain idx found where
    idx: "get_hash_table_entry_v2 B mem k = Inr idx"
    and found: "slist_foreach_strcmp mem k (chains_v2 a ! idx) = Inr found"
    and ch: "chains_v2 a' = (chains_v2 a)[idx := chain_put k v found (chains_v2 a ! idx)]"
    by blast
  from idx have lt: "idx < length (entries_v2 a)" and rd: "mem k \<noteq> None" and nn: "k \<noteq> NULL"
    by (auto simp: get_hash_table_entry_v2_Inr len)
  from ch have len': "length (entries_v2 a') = length (entries_v2 a)"
    by (metis chains_v2_length length_list_update)
  from ch lt have at: "chains_v2 a' ! idx = chain_put k v found (chains_v2 a ! idx)"
    by simp
  from lt len' have v: "list_head_v2 (entries_v2 a' ! idx) = chains_v2 a' ! idx"
    "list_head_v2 (entries_v2 a ! idx) = chains_v2 a ! idx"
    by (simp_all add: chains_v2_def)
  from chain_put_found [OF found rd, of v] obtain j where
    j: "slist_foreach_strcmp mem k (chains_v2 a' ! idx) = Inr (Some j)"
    "val (chains_v2 a' ! idx ! j) = v"
    unfolding at by blast
  have new: "list_head_v2 (entries_v2 a' ! idx) = \<lparr>key = k, val = v\<rparr> # list_head_v2 (entries_v2 a ! idx)"
    if "get_list_entry_v2 mem k (list_head_v2 (entries_v2 a ! idx)) = Inr None"
    using that found nn by (simp add: v at get_list_entry_v2_def chain_put_def)
  have look: "hash_table_v2_contains B mem' a' k' = Inr True
          \<and> hash_table_v2_get_value B mem' a' k' = Inr v"
    if "k' \<noteq> NULL" "mem' k' = mem k"
      "\<forall>e \<in> set (list_head_v2 (entries_v2 a' ! idx)). mem' (key e) = mem (key e)"
    for mem' k'
  proof -
    from that(1,2) idx have idx': "get_hash_table_entry_v2 B mem' k' = Inr idx"
      by (auto simp: get_hash_table_entry_v2_Inr)
    from that(2,3) have "slist_foreach_strcmp mem' k' (chains_v2 a' ! idx)
        = slist_foreach_strcmp mem k (chains_v2 a' ! idx)"
      by (intro slist_foreach_strcmp_mem_cong) (simp_all add: v)
    with j idx' lt len' show ?thesis
      by (simp add: v2_lookup_chains)
  qed
  from idx new look show ?thesis by blast
qed

section \<open>The invariant of the table\<close>

lemma map_key_update_val: "map key (lh[i := (lh ! i)\<lparr>val := v\<rparr>]) = map key lh"
proof (cases "i < length lh")
  case True
  then have "(map key lh)[i := key (lh ! i)] = map key lh"
    by (metis list_update_id nth_map)
  then show ?thesis by (simp add: map_update)
next
  case False
  then have "lh[i := (lh ! i)\<lparr>val := v\<rparr>] = lh"
    by (meson list_update_beyond not_less)
  then show ?thesis by simp
qed

lemma bucket_inv_iff:
  "bucket_inv B mem i lh \<longleftrightarrow>
     distinct (map (\<lambda>e. mem (key e)) lh)
     \<and> (\<forall>e \<in> set lh. \<exists>s. mem (key e) = Some s
            \<and> unat (bernstein_hash B s) mod HASH_TABLE_CAPACITY B = i)"
  by (auto simp: bucket_inv_def list_all_iff split: option.splits)

lemma table_inv_iff:
  "table_inv B mem cs \<longleftrightarrow>
     length cs = HASH_TABLE_CAPACITY B
     \<and> (\<forall>i < HASH_TABLE_CAPACITY B. bucket_inv B mem i (cs ! i))"
  by (auto simp: table_inv_def list_all_iff)

lemma bucket_inv_keys:
  assumes "map key lh = map key lh'"
  shows "bucket_inv B mem i lh = bucket_inv B mem i lh'"
proof -
  have "map (\<lambda>e. mem (key e)) lh = map mem (map key lh)"
    "map (\<lambda>e. mem (key e)) lh' = map mem (map key lh')"
    by simp_all
  with assms have d: "map (\<lambda>e. mem (key e)) lh = map (\<lambda>e. mem (key e)) lh'"
    by simp
  have "key ` set lh = key ` set lh'"
    using assms by (metis set_map)
  then have "(\<forall>e \<in> set lh. \<exists>s. mem (key e) = Some s
            \<and> unat (bernstein_hash B s) mod HASH_TABLE_CAPACITY B = i)
     \<longleftrightarrow> (\<forall>e \<in> set lh'. \<exists>s. mem (key e) = Some s
            \<and> unat (bernstein_hash B s) mod HASH_TABLE_CAPACITY B = i)"
    by (metis (mono_tags, lifting) image_iff)
  with d show ?thesis
    by (simp add: bucket_inv_iff)
qed

lemma bucket_inv_chain_put:
  assumes inv: "bucket_inv B mem i lh"
    and found: "slist_foreach_strcmp mem k lh = Inr found"
    and k: "mem k = Some s" "unat (bernstein_hash B s) mod HASH_TABLE_CAPACITY B = i"
  shows "bucket_inv B mem i (chain_put k v found lh)"
proof (cases found)
  case None
  with found have "\<forall>e \<in> set lh. mem (key e) \<noteq> mem k"
    by (auto dest: slist_foreach_strcmp_None)
  with inv k None show ?thesis
    by (auto simp: bucket_inv_iff chain_put_def)
next
  case (Some j)
  have "bucket_inv B mem i (lh[j := (lh ! j)\<lparr>val := v\<rparr>]) = bucket_inv B mem i lh"
    by (rule bucket_inv_keys) (rule map_key_update_val)
  with inv Some show ?thesis
    by (simp add: chain_put_def)
qed

lemma table_inv_chain_put:
  assumes inv: "table_inv B mem cs"
    and k: "mem k = Some s" "idx = unat (bernstein_hash B s) mod HASH_TABLE_CAPACITY B"
    and found: "slist_foreach_strcmp mem k (cs ! idx) = Inr found"
  shows "table_inv B mem (cs[idx := chain_put k v found (cs ! idx)])"
  unfolding table_inv_iff
proof (intro conjI allI impI)
  from inv show "length (cs[idx := chain_put k v found (cs ! idx)]) = HASH_TABLE_CAPACITY B"
    by (simp add: table_inv_iff)
next
  fix i assume i: "i < HASH_TABLE_CAPACITY B"
  with inv have b: "bucket_inv B mem i (cs ! i)" and len: "i < length cs"
    by (simp_all add: table_inv_iff)
  show "bucket_inv B mem i (cs[idx := chain_put k v found (cs ! idx)] ! i)"
  proof (cases "i = idx")
    case True
    with b found k len show ?thesis
      by (simp add: bucket_inv_chain_put)
  next
    case False
    with b show ?thesis by simp
  qed
qed

lemma v1_add_entry_table_inv:
  assumes "table_inv B mem (chains_v1 a)" and "hash_table_v1_add_entry B os mem a k v = Inr a'"
  shows "table_inv B mem (chains_v1 a')"
proof -
  from assms(1) have len: "length (entries_v1 a) = HASH_TABLE_CAPACITY B"
    by (simp add: table_inv_iff)
  from v1_add_entry_Inr [OF assms(2) len] obtain idx found where
    idx: "get_hash_table_entry_v1 B mem k = Inr idx"
    and found: "slist_foreach_strcmp mem k (chains_v1 a ! idx) = Inr found"
    and ch: "chains_v1 a' = (chains_v1 a)[idx := chain_put k v found (chains_v1 a ! idx)]"
    by blast
  from idx obtain s where s: "mem k = Some s"
    "idx = unat (bernstein_hash B s) mod HASH_TABLE_CAPACITY B"
    by (auto simp: get_hash_table_entry_v1_Inr)
  from assms(1) s found show ?thesis
    unfolding ch by (rule table_inv_chain_put)
qed

lemma v2_add_entry_table_inv:
  assumes "table_inv B mem (chains_v2 a)" and "hash_table_v2_add_entry B os mem a k v = Inr a'"
  shows "table_inv B mem (chains_v2 a')"
proof -
  from assms(1) have len: "length (entries_v2 a) = HASH_TABLE_CAPACITY B"
    by (simp add: table_inv_iff)
  from v2_add_entry_Inr [OF assms(2) len] obtain idx found where
    idx: "get_hash_table_entry_v2 B mem k = Inr idx"
    and found: "slist_foreach_strcmp mem k (chains_v2 a ! idx) = Inr found"
    and ch: "chains_v2 a' = (chains_v2 a)[idx := chain_put k v found (chains_v2 a ! idx)]"
    by blast
  from idx obtain s where s: "mem k = Some s"
    "idx = unat (bernstein_hash B s) mod HASH_TABLE_CAPACITY B"
    by (auto simp: get_hash_table_entry_v2_Inr)
  from assms(1) s found show ?thesis
    unfolding ch by (rule table_inv_chain_put)
qed

lemma add_entries_v1_table_inv:
  "table_inv B mem (chains_v1 a) \<Longrightarrow> add_entries_v1 B mem a calls = Inr a'
     \<Longrightarrow> table_inv B mem (chains_v1 a')"
proof (induction calls arbitrary: a)
  case Nil
  then show ?case by simp
next
  case (Cons c calls)
  obtain os k v where c: "c = (os, k, v)" by (cases c)
  with Cons.prems(2) obtain a1 where a1: "hash_table_v1_add_entry B os mem a k v = Inr a1"
    and rest: "add_entries_v1 B mem a1 calls = Inr a'"
    by (auto split: sum.splits)
  from v1_add_entry_table_inv [OF Cons.prems(1) a1] rest show ?case
    by (rule Cons.IH)
qed

lemma add_entries_v2_table_inv:
  "table_inv B mem (chains_v2 a) \<Longrightarrow> add_entries_v2 B mem a calls = Inr a'
     \<Longrightarrow> table_inv B mem (chains_v2 a')"
proof (induction calls arbitrary: a)
  case Nil
  then show ?case by simp
next
  case (Cons c calls)
  obtain os k v where c: "c = (os, k, v)" by (cases c)
  with Cons.prems(2) obtain a1 where a1: "hash_table_v2_add_entry B os mem a k v = Inr a1"
    and rest: "add_entries_v2 B mem a1 calls = Inr a'"
    by (auto split: sum.splits)
  from v2_add_entry_table_inv [OF Cons.prems(1) a1] rest show ?case
    by (rule Cons.IH)
qed

lemma slist_init_v1_replicate:
  "slist_init_v1 is (replicate n \<lparr>list_head_v1 = []\<rparr>) = replicate n \<lparr>list_head_v1 = []\<rparr>"
proof (induction "is")
  case Nil
  then show ?case by simp
next
  case (Cons i "is")
  have "(replicate n \<lparr>list_head_v1 = []\<rparr>)
          [i := (replicate n \<lparr>list_head_v1 = []\<rparr> ! i)\<lparr>list_head_v1 := []\<rparr>]
        = replicate n \<lparr>list_head_v1 = []\<rparr>"
    by (cases "i < n") (simp_all add: list_update_beyond not_less list_update_same_conv)
  with Cons show ?case by simp
qed

lemma hash_table_v1_create_Inr:
  "hash_table_v1_create B c r = Inr a \<Longrightarrow>
     entries_v1 a = replicate (HASH_TABLE_CAPACITY B) \<lparr>list_head_v1 = []\<rparr>
     \<and> mutex_v1 a = Mutex_Unlocked"
  by (auto simp: hash_table_v1_create_def slist_init_v1_replicate split: if_splits)

lemma bucket_init_v2_empty:
  "bucket_init_v2 rc is es = Inr es' \<Longrightarrow> \<forall>e \<in> set es. list_head_v2 e = []
     \<Longrightarrow> length es' = length es \<and> (\<forall>e \<in> set es'. list_head_v2 e = [])"
proof (induction "is" arbitrary: es)
  case Nil
  then show ?case by simp
next
  case (Cons i "is")
  let ?es1 = "es[i := (es ! i)\<lparr>list_head_v2 := []\<rparr>]"
  let ?es2 = "?es1[i := (?es1 ! i)\<lparr>mutex_v2 := Mutex_Unlocked\<rparr>]"
  from Cons.prems(1) have run: "bucket_init_v2 rc is ?es2 = Inr es'"
    by (simp add: Let_def split: if_splits)
  have "\<forall>e \<in> set ?es2. list_head_v2 e = []"
  proof
    fix e assume "e \<in> set ?es2"
    then obtain j where j: "j < length es" "e = ?es2 ! j"
      by (auto simp: in_set_conv_nth)
    with Cons.prems(2) show "list_head_v2 e = []"
      by (cases "j = i") simp_all
  qed
  from Cons.IH [OF run this] show ?case by simp
qed

lemma hash_table_v2_create_Inr:
  assumes "hash_table_v2_create B c rc = Inr b"
  shows "length (entries_v2 b) = HASH_TABLE_CAPACITY B
     \<and> chains_v2 b = replicate (HASH_TABLE_CAPACITY B) []"
proof -
  let ?z = "replicate (HASH_TABLE_CAPACITY B) \<lparr>list_head_v2 = [], mutex_v2 = Mutex_Zeroed\<rparr>"
  from assms have run: "bucket_init_v2 rc [0 ..< HASH_TABLE_CAPACITY B] ?z = Inr (entries_v2 b)"
    by (auto simp: hash_table_v2_create_def split: if_splits sum.splits)
  have "\<forall>e \<in> set ?z. list_head_v2 e = []" by simp
  from bucket_init_v2_empty [OF run this]
  have len: "length (entries_v2 b) = HASH_TABLE_CAPACITY B"
    and emp: "\<forall>e \<in> set (entries_v2 b). list_head_v2 e = []"
    by simp_all
  from emp have "map list_head_v2 (entries_v2 b) = replicate (length (entries_v2 b)) []"
    by (simp add: map_replicate_const [symmetric] cong: map_cong)
  with len show ?thesis by (simp add: chains_v2_def)
qed

lemma table_inv_empty: "table_inv B mem (replicate (HASH_TABLE_CAPACITY B) [])"
  by (simp add: table_inv_iff bucket_inv_iff)

section \<open>The entries for one key\<close>

lemma filter_distinct_nth:
  "distinct (map f lh) \<Longrightarrow> j < length lh \<Longrightarrow> filter (\<lambda>e. f e = f (lh ! j)) lh = [lh ! j]"
proof (induction lh arbitrary: j)
  case Nil
  then show ?case by simp
next
  case (Cons e es)
  show ?case
  proof (cases j)
    case 0
    from Cons.prems(1) have "f e \<notin> f ` set es"
      by simp
    then have "\<forall>x \<in> set es. f x \<noteq> f e"
      by (metis imageI)
    then have "filter (\<lambda>x. f x = f e) es = []"
      by (simp add: filter_empty_conv)
    with 0 show ?thesis by simp
  next
    case (Suc j')
    with Cons.prems have "es ! j' \<in> set es" "f e \<notin> f ` set es"
      by simp_all
    then have "f e \<noteq> f (es ! j')"
      by (metis imageI)
    moreover from Cons.prems Suc have "filter (\<lambda>x. f x = f (es ! j')) es = [es ! j']"
      by (intro Cons.IH) simp_all
    ultimately show ?thesis using Suc by simp
  qed
qed

lemma filter_concat_one:
  assumes "idx < length cs" and "\<forall>i < length cs. i \<noteq> idx \<longrightarrow> filter P (cs ! i) = []"
  shows "filter P (concat cs) = filter P (cs ! idx)"
proof -
  have split: "cs = take idx cs @ cs ! idx # drop (Suc idx) cs"
    using assms(1) by (rule id_take_nth_drop)
  have "\<forall>c \<in> set (take idx cs). filter P c = []"
  proof
    fix c assume "c \<in> set (take idx cs)"
    then obtain i where "i < idx" "c = cs ! i"
      using assms(1) by (auto simp: in_set_conv_nth)
    with assms show "filter P c = []" by simp
  qed
  then have l: "filter P (concat (take idx cs)) = []"
    by (auto simp: filter_empty_conv)
  have "\<forall>c \<in> set (drop (Suc idx) cs). filter P c = []"
  proof
    fix c assume "c \<in> set (drop (Suc idx) cs)"
    then obtain i where i: "i < length (drop (Suc idx) cs)" "c = drop (Suc idx) cs ! i"
      by (metis in_set_conv_nth)
    with assms(1) have "Suc idx + i < length cs" "c = cs ! (Suc idx + i)"
      by simp_all
    with assms show "filter P c = []" by simp
  qed
  then have r: "filter P (concat (drop (Suc idx) cs)) = []"
    by (auto simp: filter_empty_conv)
  have "filter P (concat cs)
      = filter P (concat (take idx cs)) @ filter P (cs ! idx) @ filter P (concat (drop (Suc idx) cs))"
    by (subst split) simp
  with l r show ?thesis by simp
qed

lemma entries_for_found:
  assumes inv: "table_inv B mem cs"
    and s: "mem k = Some s" "idx = unat (bernstein_hash B s) mod HASH_TABLE_CAPACITY B"
      "0 < HASH_TABLE_CAPACITY B"
    and found: "slist_foreach_strcmp mem k (cs ! idx) = Inr (Some j)"
  shows "entries_for mem k cs = [cs ! idx ! j]"
proof -
  from s have lt: "idx < HASH_TABLE_CAPACITY B" by simp
  with inv have len: "idx < length cs" and b: "bucket_inv B mem idx (cs ! idx)"
    by (simp_all add: table_inv_iff)
  from found have j: "j < length (cs ! idx)" "mem (key (cs ! idx ! j)) = mem k"
    by (auto dest: slist_foreach_strcmp_Some)
  have others: "\<forall>i < length cs. i \<noteq> idx \<longrightarrow> filter (\<lambda>e. mem (key e) = mem k) (cs ! i) = []"
  proof (intro allI impI)
    fix i assume i: "i < length cs" "i \<noteq> idx"
    with inv have "bucket_inv B mem i (cs ! i)"
      by (simp add: table_inv_iff)
    with s i(2) have "\<forall>e \<in> set (cs ! i). mem (key e) \<noteq> mem k"
      by (auto simp: bucket_inv_iff)
    then show "filter (\<lambda>e. mem (key e) = mem k) (cs ! i) = []"
      by (simp add: filter_empty_conv)
  qed
  from b have "distinct (map (\<lambda>e. mem (key e)) (cs ! idx))"
    by (simp add: bucket_inv_iff)
  from filter_distinct_nth [OF this j(1)] j(2)
  have "filter (\<lambda>e. mem (key e) = mem k) (cs ! idx) = [cs ! idx ! j]"
    by simp
  with filter_concat_one [OF len others] show ?thesis
    by (simp add: entries_for_def)
qed




section \<open>The two files side by side\<close>

lemma get_hash_table_entry_same:
  "get_hash_table_entry_v1 B mem k = get_hash_table_entry_v2 B mem k"
  by (simp add: get_hash_table_entry_v1_def get_hash_table_entry_v2_def)

lemma v1_add_entry_returns_if:
  assumes "lock_rc os = 0" "unlock_rc os = 0"
    and "get_hash_table_entry_v1 B mem k = Inr idx"
    and "slist_foreach_strcmp mem k (list_head_v1 (entries_v1 ht ! idx)) = Inr found"
    and "found = None \<longrightarrow> calloc_ok os"
  shows "\<exists>ht'. hash_table_v1_add_entry B os mem ht k v = Inr ht'"
proof -
  from assms(3) have "k \<noteq> NULL"
    by (simp add: get_hash_table_entry_v1_Inr)
  with assms show ?thesis
    by (cases found)
      (simp_all add: hash_table_v1_add_entry_def get_list_entry_v1_def Let_def)
qed

lemma v2_add_entry_returns_if:
  assumes "lock_rc os = 0" "unlock_rc os = 0"
    and "get_hash_table_entry_v2 B mem k = Inr idx"
    and "slist_foreach_strcmp mem k (list_head_v2 (entries_v2 ht ! idx)) = Inr found"
    and "found = None \<longrightarrow> calloc_ok os"
  shows "\<exists>ht'. hash_table_v2_add_entry B os mem ht k v = Inr ht'"
proof -
  from assms(3) have nn: "k \<noteq> NULL"
    by (simp add: get_hash_table_entry_v2_Inr)
  have "list_head_v2 (entries_v2 (store_mutex_v2 ht idx Mutex_Locked) ! idx)
          = list_head_v2 (entries_v2 ht ! idx)"
    by (cases "idx < length (entries_v2 ht)")
      (simp_all add: store_mutex_v2_def not_less list_update_beyond)
  with assms nn show ?thesis
    by (cases found)
      (simp_all add: hash_table_v2_add_entry_def get_list_entry_v2_def Let_def)
qed

lemma lookup_same:
  assumes len: "length (entries_v1 a) = HASH_TABLE_CAPACITY B"
    and rel: "chains_v1 a = chains_v2 b"
  shows "hash_table_v1_contains B mem a k = hash_table_v2_contains B mem b k"
    and "hash_table_v1_get_value B mem a k = hash_table_v2_get_value B mem b k"
proof -
  from rel len have len2: "length (entries_v2 b) = HASH_TABLE_CAPACITY B"
    by (metis chains_v1_length chains_v2_length)
  show "hash_table_v1_contains B mem a k = hash_table_v2_contains B mem b k"
  proof (cases "get_hash_table_entry_v1 B mem k")
    case (Inl f)
    then show ?thesis
      using get_hash_table_entry_same [of B mem k]
      by (simp add: hash_table_v1_contains_def hash_table_v2_contains_def)
  next
    case (Inr idx)
    then have i2: "get_hash_table_entry_v2 B mem k = Inr idx"
      by (simp add: get_hash_table_entry_same)
    from Inr have "idx < HASH_TABLE_CAPACITY B"
      by (auto simp: get_hash_table_entry_v1_Inr)
    with Inr i2 len len2 rel show ?thesis
      by (simp add: v1_lookup_chains v2_lookup_chains)
  qed
  show "hash_table_v1_get_value B mem a k = hash_table_v2_get_value B mem b k"
  proof (cases "get_hash_table_entry_v1 B mem k")
    case (Inl f)
    then show ?thesis
      using get_hash_table_entry_same [of B mem k]
      by (simp add: hash_table_v1_get_value_def hash_table_v2_get_value_def)
  next
    case (Inr idx)
    then have i2: "get_hash_table_entry_v2 B mem k = Inr idx"
      by (simp add: get_hash_table_entry_same)
    from Inr have "idx < HASH_TABLE_CAPACITY B"
      by (auto simp: get_hash_table_entry_v1_Inr)
    with Inr i2 len len2 rel show ?thesis
      by (simp add: v1_lookup_chains v2_lookup_chains split: sum.splits option.splits)
  qed
qed

lemma add_entry_same_forward:
  assumes len: "length (entries_v1 a) = HASH_TABLE_CAPACITY B"
    and rel: "chains_v1 a = chains_v2 b"
    and add: "hash_table_v1_add_entry B os mem a k v = Inr a'"
  shows "\<exists>b'. hash_table_v2_add_entry B os mem b k v = Inr b'
            \<and> chains_v1 a' = chains_v2 b'
            \<and> length (entries_v1 a') = HASH_TABLE_CAPACITY B"
proof -
  from rel len have len2: "length (entries_v2 b) = HASH_TABLE_CAPACITY B"
    by (metis chains_v1_length chains_v2_length)
  from v1_add_entry_Inr [OF add len] obtain idx found where
    idx: "get_hash_table_entry_v1 B mem k = Inr idx"
    and found: "slist_foreach_strcmp mem k (chains_v1 a ! idx) = Inr found"
    and ch: "chains_v1 a' = (chains_v1 a)[idx := chain_put k v found (chains_v1 a ! idx)]"
    and os: "lock_rc os = 0" "unlock_rc os = 0" "found = None \<longrightarrow> calloc_ok os"
    by blast
  from idx have i2: "get_hash_table_entry_v2 B mem k = Inr idx" and lt: "idx < HASH_TABLE_CAPACITY B"
    by (auto simp: get_hash_table_entry_same [symmetric] get_hash_table_entry_v1_Inr)
  from lt len2 have "list_head_v2 (entries_v2 b ! idx) = chains_v2 b ! idx"
    by (simp add: chains_v2_def)
  with found rel have "slist_foreach_strcmp mem k (list_head_v2 (entries_v2 b ! idx)) = Inr found"
    by simp
  from v2_add_entry_returns_if [OF os(1,2) i2 this os(3)] obtain b'
    where b': "hash_table_v2_add_entry B os mem b k v = Inr b'" by blast
  from v2_add_entry_Inr [OF b' len2] obtain idx' found' where
    "get_hash_table_entry_v2 B mem k = Inr idx'"
    "slist_foreach_strcmp mem k (chains_v2 b ! idx') = Inr found'"
    "chains_v2 b' = (chains_v2 b)[idx' := chain_put k v found' (chains_v2 b ! idx')]"
    by blast
  with i2 found rel ch have "chains_v1 a' = chains_v2 b'"
    by simp
  moreover from ch len have "length (entries_v1 a') = HASH_TABLE_CAPACITY B"
    by (metis chains_v1_length length_list_update)
  ultimately show ?thesis using b' by blast
qed

lemma add_entry_same_backward:
  assumes len: "length (entries_v1 a) = HASH_TABLE_CAPACITY B"
    and rel: "chains_v1 a = chains_v2 b"
    and add: "hash_table_v2_add_entry B os mem b k v = Inr b'"
  shows "\<exists>a'. hash_table_v1_add_entry B os mem a k v = Inr a'"
proof -
  from rel len have len2: "length (entries_v2 b) = HASH_TABLE_CAPACITY B"
    by (metis chains_v1_length chains_v2_length)
  from v2_add_entry_Inr [OF add len2] obtain idx found where
    idx: "get_hash_table_entry_v2 B mem k = Inr idx"
    and found: "slist_foreach_strcmp mem k (chains_v2 b ! idx) = Inr found"
    and os: "lock_rc os = 0" "unlock_rc os = 0" "found = None \<longrightarrow> calloc_ok os"
    by blast
  from idx have i1: "get_hash_table_entry_v1 B mem k = Inr idx" and lt: "idx < HASH_TABLE_CAPACITY B"
    by (auto simp: get_hash_table_entry_same get_hash_table_entry_v2_Inr)
  from lt len have "list_head_v1 (entries_v1 a ! idx) = chains_v1 a ! idx"
    by (simp add: chains_v1_def)
  with found rel have "slist_foreach_strcmp mem k (list_head_v1 (entries_v1 a ! idx)) = Inr found"
    by simp
  from v1_add_entry_returns_if [OF os(1,2) i1 this os(3)] show ?thesis .
qed

lemma run_same:
  "length (entries_v1 a) = HASH_TABLE_CAPACITY B \<Longrightarrow> chains_v1 a = chains_v2 b
     \<Longrightarrow> run_v1 B mem a calls = run_v2 B mem b calls"
proof (induction calls arbitrary: mem a b)
  case Nil
  then show ?case by simp
next
  case (Cons c calls)
  note len = Cons.prems(1) and rel = Cons.prems(2)
  show ?case
  proof (cases c)
    case (Add os k v)
    show ?thesis
    proof (cases "hash_table_v1_add_entry B os mem a k v")
      case (Inl f)
      have "\<exists>f'. hash_table_v2_add_entry B os mem b k v = Inl f'"
      proof (cases "hash_table_v2_add_entry B os mem b k v")
        case (Inr b')
        from add_entry_same_backward [OF len rel Inr] Inl show ?thesis by simp
      qed simp
      with Inl Add show ?thesis by auto
    next
      case (Inr a')
      from add_entry_same_forward [OF len rel Inr] obtain b' where
        b': "hash_table_v2_add_entry B os mem b k v = Inr b'"
        and rel': "chains_v1 a' = chains_v2 b'"
        and len': "length (entries_v1 a') = HASH_TABLE_CAPACITY B"
        by blast
      from Cons.IH [OF len' rel'] Inr b' Add show ?thesis by simp
    qed
  next
    case (Contains k)
    with lookup_same(1) [OF len rel, of mem k] Cons.IH [OF len rel, of mem] show ?thesis
      by (simp split: sum.splits)
  next
    case (Get k)
    with lookup_same(2) [OF len rel, of mem k] Cons.IH [OF len rel, of mem] show ?thesis
      by (simp split: sum.splits)
  next
    case (Caller_Writes p s)
    show ?thesis
      unfolding Caller_Writes run_v1.simps run_v2.simps by (rule Cons.IH [OF len rel])
  qed
qed

section \<open>What a lookup finds\<close>

lemma lookup_in_bucket:
  assumes "mem k \<noteq> None" and "keys_readable mem lh"
  shows "\<exists>found. slist_foreach_strcmp mem k lh = Inr found
           \<and> (found = None \<longleftrightarrow> (\<forall>e \<in> set lh. mem (key e) \<noteq> mem k))
           \<and> (\<forall>j. found = Some j \<longrightarrow> j < length lh \<and> mem (key (lh ! j)) = mem k)"
proof -
  from slist_foreach_strcmp_returns [OF assms] obtain found
    where found: "slist_foreach_strcmp mem k lh = Inr found" by blast
  show ?thesis
  proof (cases found)
    case None
    with found show ?thesis
      by (auto dest: slist_foreach_strcmp_None)
  next
    case (Some j)
    with found have "j < length lh" "mem (key (lh ! j)) = mem k"
      by (auto dest: slist_foreach_strcmp_Some)
    moreover from this have "\<exists>e \<in> set lh. mem (key e) = mem k"
      by (metis nth_mem)
    ultimately show ?thesis using found Some by auto
  qed
qed

lemma table_inv_keys_readable:
  assumes "table_inv B mem cs" and "i < HASH_TABLE_CAPACITY B"
  shows "keys_readable mem (cs ! i)"
proof -
  from assms have "bucket_inv B mem i (cs ! i)"
    by (simp add: table_inv_iff)
  then show ?thesis
    by (auto simp: bucket_inv_iff keys_readable_def list_all_iff)
qed

lemma entries_for_bucket:
  assumes inv: "table_inv B mem cs"
    and s: "mem k = Some s" "idx = unat (bernstein_hash B s) mod HASH_TABLE_CAPACITY B"
      "0 < HASH_TABLE_CAPACITY B"
  shows "entries_for mem k cs = filter (\<lambda>e. mem (key e) = mem k) (cs ! idx)"
proof -
  from s have lt: "idx < HASH_TABLE_CAPACITY B" by simp
  with inv have len: "idx < length cs"
    by (simp add: table_inv_iff)
  have others: "\<forall>i < length cs. i \<noteq> idx \<longrightarrow> filter (\<lambda>e. mem (key e) = mem k) (cs ! i) = []"
  proof (intro allI impI)
    fix i assume i: "i < length cs" "i \<noteq> idx"
    with inv have "bucket_inv B mem i (cs ! i)"
      by (simp add: table_inv_iff)
    with s i(2) have "\<forall>e \<in> set (cs ! i). mem (key e) \<noteq> mem k"
      by (auto simp: bucket_inv_iff)
    then show "filter (\<lambda>e. mem (key e) = mem k) (cs ! i) = []"
      by (simp add: filter_empty_conv)
  qed
  from filter_concat_one [OF len others] show ?thesis
    by (simp add: entries_for_def)
qed

lemma lookup_in_table:
  assumes inv: "table_inv B mem cs"
    and s: "mem k = Some s" "idx = unat (bernstein_hash B s) mod HASH_TABLE_CAPACITY B"
      "0 < HASH_TABLE_CAPACITY B"
  shows "\<exists>found. slist_foreach_strcmp mem k (cs ! idx) = Inr found
           \<and> (found = None \<longleftrightarrow> entries_for mem k cs = [])
           \<and> (\<forall>j. found = Some j \<longrightarrow> entries_for mem k cs = [cs ! idx ! j])"
proof -
  from s have lt: "idx < HASH_TABLE_CAPACITY B" and rd: "mem k \<noteq> None" by simp_all
  from lookup_in_bucket [OF rd table_inv_keys_readable [OF inv lt]] obtain found where
    found: "slist_foreach_strcmp mem k (cs ! idx) = Inr found"
    and none: "found = None \<longleftrightarrow> (\<forall>e \<in> set (cs ! idx). mem (key e) \<noteq> mem k)"
    by blast
  note bucket = entries_for_bucket [OF inv s]
  have "found = None \<longleftrightarrow> entries_for mem k cs = []"
    unfolding bucket none by (simp add: filter_empty_conv)
  moreover have "entries_for mem k cs = [cs ! idx ! j]" if "found = Some j" for j
    using entries_for_found [OF inv s] found that by simp
  ultimately show ?thesis using found by blast
qed

lemma v1_lookup_bucket:
  assumes "get_hash_table_entry_v1 B mem k = Inr idx"
  shows "hash_table_v1_contains B mem ht k =
           (case slist_foreach_strcmp mem k (list_head_v1 (entries_v1 ht ! idx)) of
              Inl f \<Rightarrow> Inl f | Inr found \<Rightarrow> Inr (found \<noteq> None))"
    and "hash_table_v1_get_value B mem ht k =
           (case slist_foreach_strcmp mem k (list_head_v1 (entries_v1 ht ! idx)) of
              Inl f \<Rightarrow> Inl f
            | Inr None \<Rightarrow> Inl Assertion_Failed
            | Inr (Some i) \<Rightarrow> Inr (val (list_head_v1 (entries_v1 ht ! idx) ! i)))"
proof -
  from assms have "k \<noteq> NULL"
    by (simp add: get_hash_table_entry_v1_Inr)
  with assms show
    "hash_table_v1_contains B mem ht k =
           (case slist_foreach_strcmp mem k (list_head_v1 (entries_v1 ht ! idx)) of
              Inl f \<Rightarrow> Inl f | Inr found \<Rightarrow> Inr (found \<noteq> None))"
    by (simp add: hash_table_v1_contains_def get_list_entry_v1_def)
  from assms \<open>k \<noteq> NULL\<close> show
    "hash_table_v1_get_value B mem ht k =
           (case slist_foreach_strcmp mem k (list_head_v1 (entries_v1 ht ! idx)) of
              Inl f \<Rightarrow> Inl f
            | Inr None \<Rightarrow> Inl Assertion_Failed
            | Inr (Some i) \<Rightarrow> Inr (val (list_head_v1 (entries_v1 ht ! idx) ! i)))"
    by (simp add: hash_table_v1_get_value_def get_list_entry_v1_def Let_def)
qed

lemma v1_get_value_bucket:
  assumes idx: "get_hash_table_entry_v1 B mem k = Inr idx"
    and rd: "keys_readable mem (list_head_v1 (entries_v1 a ! idx))"
  shows "(hash_table_v1_get_value B mem a k = Inl Assertion_Failed
           \<longleftrightarrow> (\<forall>e \<in> set (list_head_v1 (entries_v1 a ! idx)). mem (key e) \<noteq> mem k))
     \<and> hash_table_v1_contains B mem a k
           = Inr (\<exists>e \<in> set (list_head_v1 (entries_v1 a ! idx)). mem (key e) = mem k)
     \<and> (\<forall>v. hash_table_v1_get_value B mem a k = Inr v \<longrightarrow>
           (\<exists>e \<in> set (list_head_v1 (entries_v1 a ! idx)). mem (key e) = mem k \<and> val e = v))"
proof -
  let ?lh = "list_head_v1 (entries_v1 a ! idx)"
  from idx have "mem k \<noteq> None"
    by (auto simp: get_hash_table_entry_v1_Inr)
  from lookup_in_bucket [OF this rd] obtain found where
    found: "slist_foreach_strcmp mem k ?lh = Inr found"
    and none: "found = None \<longleftrightarrow> (\<forall>e \<in> set ?lh. mem (key e) \<noteq> mem k)"
    and some: "\<forall>j. found = Some j \<longrightarrow> j < length ?lh \<and> mem (key (?lh ! j)) = mem k"
    by blast
  show ?thesis
  proof (cases found)
    case None
    with found none show ?thesis
      by (simp add: v1_lookup_bucket [OF idx])
  next
    case (Some j)
    with some have j: "j < length ?lh" "mem (key (?lh ! j)) = mem k" by simp_all
    then have "?lh ! j \<in> set ?lh" by simp
    with j(2) have ex: "\<exists>e \<in> set ?lh. mem (key e) = mem k \<and> val e = val (?lh ! j)"
      by blast
    with found Some none show ?thesis
      by (auto simp: v1_lookup_bucket [OF idx])
  qed
qed

lemma v1_get_value_table:
  assumes inv: "table_inv B mem (chains_v1 a)"
    and idx: "get_hash_table_entry_v1 B mem k = Inr idx"
  shows "(hash_table_v1_get_value B mem a k = Inl Assertion_Failed
           \<longleftrightarrow> entries_for mem k (chains_v1 a) = [])
     \<and> hash_table_v1_contains B mem a k = Inr (entries_for mem k (chains_v1 a) \<noteq> [])
     \<and> (\<forall>v. hash_table_v1_get_value B mem a k = Inr v
            \<longleftrightarrow> map val (entries_for mem k (chains_v1 a)) = [v])"
proof -
  from idx obtain s where s: "mem k = Some s"
    "idx = unat (bernstein_hash B s) mod HASH_TABLE_CAPACITY B" "0 < HASH_TABLE_CAPACITY B"
    by (auto simp: get_hash_table_entry_v1_Inr)
  from inv s have lt: "idx < length (entries_v1 a)"
    by (simp add: table_inv_iff)
  from lookup_in_table [OF inv s] obtain found where
    found: "slist_foreach_strcmp mem k (chains_v1 a ! idx) = Inr found"
    and none: "found = None \<longleftrightarrow> entries_for mem k (chains_v1 a) = []"
    and some: "\<forall>j. found = Some j \<longrightarrow> entries_for mem k (chains_v1 a) = [chains_v1 a ! idx ! j]"
    by blast
  show ?thesis
  proof (cases found)
    case None
    with found none show ?thesis
      by (simp add: v1_lookup_chains [OF idx lt])
  next
    case (Some j)
    with some have "entries_for mem k (chains_v1 a) = [chains_v1 a ! idx ! j]" by simp
    with found Some show ?thesis
      by (auto simp: v1_lookup_chains [OF idx lt])
  qed
qed

lemma v2_lookup_bucket:
  assumes "get_hash_table_entry_v2 B mem k = Inr idx"
  shows "hash_table_v2_contains B mem ht k =
           (case slist_foreach_strcmp mem k (list_head_v2 (entries_v2 ht ! idx)) of
              Inl f \<Rightarrow> Inl f | Inr found \<Rightarrow> Inr (found \<noteq> None))"
    and "hash_table_v2_get_value B mem ht k =
           (case slist_foreach_strcmp mem k (list_head_v2 (entries_v2 ht ! idx)) of
              Inl f \<Rightarrow> Inl f
            | Inr None \<Rightarrow> Inl Assertion_Failed
            | Inr (Some i) \<Rightarrow> Inr (val (list_head_v2 (entries_v2 ht ! idx) ! i)))"
proof -
  from assms have "k \<noteq> NULL"
    by (simp add: get_hash_table_entry_v2_Inr)
  with assms show
    "hash_table_v2_contains B mem ht k =
           (case slist_foreach_strcmp mem k (list_head_v2 (entries_v2 ht ! idx)) of
              Inl f \<Rightarrow> Inl f | Inr found \<Rightarrow> Inr (found \<noteq> None))"
    by (simp add: hash_table_v2_contains_def get_list_entry_v2_def)
  from assms \<open>k \<noteq> NULL\<close> show
    "hash_table_v2_get_value B mem ht k =
           (case slist_foreach_strcmp mem k (list_head_v2 (entries_v2 ht ! idx)) of
              Inl f \<Rightarrow> Inl f
            | Inr None \<Rightarrow> Inl Assertion_Failed
            | Inr (Some i) \<Rightarrow> Inr (val (list_head_v2 (entries_v2 ht ! idx) ! i)))"
    by (simp add: hash_table_v2_get_value_def get_list_entry_v2_def Let_def)
qed

lemma v2_get_value_bucket:
  assumes idx: "get_hash_table_entry_v2 B mem k = Inr idx"
    and rd: "keys_readable mem (list_head_v2 (entries_v2 a ! idx))"
  shows "(hash_table_v2_get_value B mem a k = Inl Assertion_Failed
           \<longleftrightarrow> (\<forall>e \<in> set (list_head_v2 (entries_v2 a ! idx)). mem (key e) \<noteq> mem k))
     \<and> hash_table_v2_contains B mem a k
           = Inr (\<exists>e \<in> set (list_head_v2 (entries_v2 a ! idx)). mem (key e) = mem k)
     \<and> (\<forall>v. hash_table_v2_get_value B mem a k = Inr v \<longrightarrow>
           (\<exists>e \<in> set (list_head_v2 (entries_v2 a ! idx)). mem (key e) = mem k \<and> val e = v))"
proof -
  let ?lh = "list_head_v2 (entries_v2 a ! idx)"
  from idx have "mem k \<noteq> None"
    by (auto simp: get_hash_table_entry_v2_Inr)
  from lookup_in_bucket [OF this rd] obtain found where
    found: "slist_foreach_strcmp mem k ?lh = Inr found"
    and none: "found = None \<longleftrightarrow> (\<forall>e \<in> set ?lh. mem (key e) \<noteq> mem k)"
    and some: "\<forall>j. found = Some j \<longrightarrow> j < length ?lh \<and> mem (key (?lh ! j)) = mem k"
    by blast
  show ?thesis
  proof (cases found)
    case None
    with found none show ?thesis
      by (simp add: v2_lookup_bucket [OF idx])
  next
    case (Some j)
    with some have j: "j < length ?lh" "mem (key (?lh ! j)) = mem k" by simp_all
    then have "?lh ! j \<in> set ?lh" by simp
    with j(2) have ex: "\<exists>e \<in> set ?lh. mem (key e) = mem k \<and> val e = val (?lh ! j)"
      by blast
    with found Some none show ?thesis
      by (auto simp: v2_lookup_bucket [OF idx])
  qed
qed

lemma v2_get_value_table:
  assumes inv: "table_inv B mem (chains_v2 a)"
    and idx: "get_hash_table_entry_v2 B mem k = Inr idx"
  shows "(hash_table_v2_get_value B mem a k = Inl Assertion_Failed
           \<longleftrightarrow> entries_for mem k (chains_v2 a) = [])
     \<and> hash_table_v2_contains B mem a k = Inr (entries_for mem k (chains_v2 a) \<noteq> [])
     \<and> (\<forall>v. hash_table_v2_get_value B mem a k = Inr v
            \<longleftrightarrow> map val (entries_for mem k (chains_v2 a)) = [v])"
proof -
  from idx obtain s where s: "mem k = Some s"
    "idx = unat (bernstein_hash B s) mod HASH_TABLE_CAPACITY B" "0 < HASH_TABLE_CAPACITY B"
    by (auto simp: get_hash_table_entry_v2_Inr)
  from inv s have lt: "idx < length (entries_v2 a)"
    by (simp add: table_inv_iff)
  from lookup_in_table [OF inv s] obtain found where
    found: "slist_foreach_strcmp mem k (chains_v2 a ! idx) = Inr found"
    and none: "found = None \<longleftrightarrow> entries_for mem k (chains_v2 a) = []"
    and some: "\<forall>j. found = Some j \<longrightarrow> entries_for mem k (chains_v2 a) = [chains_v2 a ! idx ! j]"
    by blast
  show ?thesis
  proof (cases found)
    case None
    with found none show ?thesis
      by (simp add: v2_lookup_chains [OF idx lt])
  next
    case (Some j)
    with some have "entries_for mem k (chains_v2 a) = [chains_v2 a ! idx ! j]" by simp
    with found Some show ?thesis
      by (auto simp: v2_lookup_chains [OF idx lt])
  qed
qed

section \<open>Caller writes and the invariant\<close>

lemma bucket_inv_mem_cong:
  assumes "\<forall>e \<in> set lh. mem' (key e) = mem (key e)"
  shows "bucket_inv B mem' i lh = bucket_inv B mem i lh"
proof -
  from assms have d: "map (\<lambda>e. mem' (key e)) lh = map (\<lambda>e. mem (key e)) lh"
    by simp
  have r: "(\<forall>e \<in> set lh. \<exists>s. mem' (key e) = Some s
              \<and> unat (bernstein_hash B s) mod HASH_TABLE_CAPACITY B = i)
        \<longleftrightarrow> (\<forall>e \<in> set lh. \<exists>s. mem (key e) = Some s
              \<and> unat (bernstein_hash B s) mod HASH_TABLE_CAPACITY B = i)"
    by (rule ball_cong) (simp_all add: assms)
  show ?thesis
    unfolding bucket_inv_iff d r ..
qed

lemma table_inv_mem_cong:
  assumes inv: "table_inv B mem cs"
    and same: "\<forall>e \<in> set (concat cs). mem' (key e) = mem (key e)"
  shows "table_inv B mem' cs"
  unfolding table_inv_iff
proof (intro conjI allI impI)
  from inv show "length cs = HASH_TABLE_CAPACITY B"
    by (simp add: table_inv_iff)
next
  fix i assume i: "i < HASH_TABLE_CAPACITY B"
  with inv have b: "bucket_inv B mem i (cs ! i)" and "i < length cs"
    by (simp_all add: table_inv_iff)
  then have "cs ! i \<in> set cs" by simp
  with same have "\<forall>e \<in> set (cs ! i). mem' (key e) = mem (key e)"
    by auto
  from bucket_inv_mem_cong [OF this] b show "bucket_inv B mem' i (cs ! i)"
    by simp
qed

lemma table_inv_caller_write:
  assumes "table_inv B mem cs" and "keys_left_alone mem cs p s"
  shows "table_inv B (mem(p := s)) cs"
proof -
  from assms(2) have "\<forall>e \<in> set (concat cs). (mem(p := s)) (key e) = mem (key e)"
    unfolding keys_left_alone_def list_all_iff by assumption
  with assms(1) show ?thesis
    by (rule table_inv_mem_cong)
qed

lemma client_v1_table_inv:
  "table_inv B mem (chains_v1 a) \<Longrightarrow> writes_spare_keys_v1 B mem a calls
     \<Longrightarrow> client_v1 B mem a calls = Inr (mem', a') \<Longrightarrow> table_inv B mem' (chains_v1 a')"
proof (induction calls arbitrary: mem a)
  case Nil
  then show ?case by simp
next
  case (Cons c calls)
  show ?case
  proof (cases c)
    case (Add os k v)
    with Cons.prems(3) obtain a1 where a1: "hash_table_v1_add_entry B os mem a k v = Inr a1"
      and rest: "client_v1 B mem a1 calls = Inr (mem', a')"
      by (auto split: sum.splits)
    from Cons.prems(2) Add a1 have sp: "writes_spare_keys_v1 B mem a1 calls"
      by simp
    from v1_add_entry_table_inv [OF Cons.prems(1) a1] sp rest show ?thesis
      by (rule Cons.IH)
  next
    case (Contains k)
    with Cons.prems have "writes_spare_keys_v1 B mem a calls"
      "client_v1 B mem a calls = Inr (mem', a')"
      by (auto split: sum.splits)
    with Cons.prems(1) show ?thesis
      by (rule Cons.IH)
  next
    case (Get k)
    with Cons.prems have "writes_spare_keys_v1 B mem a calls"
      "client_v1 B mem a calls = Inr (mem', a')"
      by (auto split: sum.splits)
    with Cons.prems(1) show ?thesis
      by (rule Cons.IH)
  next
    case (Caller_Writes p s)
    with Cons.prems have alone: "keys_left_alone mem (chains_v1 a) p s"
      and sp: "writes_spare_keys_v1 B (mem(p := s)) a calls"
      and rest: "client_v1 B (mem(p := s)) a calls = Inr (mem', a')"
      by simp_all
    from table_inv_caller_write [OF Cons.prems(1) alone] sp rest show ?thesis
      by (rule Cons.IH)
  qed
qed

lemma client_v2_table_inv:
  "table_inv B mem (chains_v2 a) \<Longrightarrow> writes_spare_keys_v2 B mem a calls
     \<Longrightarrow> client_v2 B mem a calls = Inr (mem', a') \<Longrightarrow> table_inv B mem' (chains_v2 a')"
proof (induction calls arbitrary: mem a)
  case Nil
  then show ?case by simp
next
  case (Cons c calls)
  show ?case
  proof (cases c)
    case (Add os k v)
    with Cons.prems(3) obtain a1 where a1: "hash_table_v2_add_entry B os mem a k v = Inr a1"
      and rest: "client_v2 B mem a1 calls = Inr (mem', a')"
      by (auto split: sum.splits)
    from Cons.prems(2) Add a1 have sp: "writes_spare_keys_v2 B mem a1 calls"
      by simp
    from v2_add_entry_table_inv [OF Cons.prems(1) a1] sp rest show ?thesis
      by (rule Cons.IH)
  next
    case (Contains k)
    with Cons.prems have "writes_spare_keys_v2 B mem a calls"
      "client_v2 B mem a calls = Inr (mem', a')"
      by (auto split: sum.splits)
    with Cons.prems(1) show ?thesis
      by (rule Cons.IH)
  next
    case (Get k)
    with Cons.prems have "writes_spare_keys_v2 B mem a calls"
      "client_v2 B mem a calls = Inr (mem', a')"
      by (auto split: sum.splits)
    with Cons.prems(1) show ?thesis
      by (rule Cons.IH)
  next
    case (Caller_Writes p s)
    with Cons.prems have alone: "keys_left_alone mem (chains_v2 a) p s"
      and sp: "writes_spare_keys_v2 B (mem(p := s)) a calls"
      and rest: "client_v2 B (mem(p := s)) a calls = Inr (mem', a')"
      by simp_all
    from table_inv_caller_write [OF Cons.prems(1) alone] sp rest show ?thesis
      by (rule Cons.IH)
  qed
qed

section \<open>Evaluating the small instance\<close>

lemma list_update_Cons_numeral:
  "(x # xs)[numeral n := y] = x # xs[numeral n - 1 := y]"
  by (simp add: numeral_eq_Suc)

lemmas example_defs = example_base_def example_mem_def example_sys_def NULL_def

lemma example_index_v1:
  "get_hash_table_entry_v1 example_base example_mem 16 = Inr 3"
  "get_hash_table_entry_v1 example_base example_mem 32 = Inr 0"
  "get_hash_table_entry_v1 example_base example_mem 48 = Inr 3"
  "get_hash_table_entry_v1 example_base example_mem 64 = Inr 2"
  by (simp_all add: get_hash_table_entry_v1_def example_defs)

lemma example_index_v2:
  "get_hash_table_entry_v2 example_base example_mem 16 = Inr 3"
  "get_hash_table_entry_v2 example_base example_mem 32 = Inr 0"
  "get_hash_table_entry_v2 example_base example_mem 48 = Inr 3"
  "get_hash_table_entry_v2 example_base example_mem 64 = Inr 2"
  by (simp_all add: get_hash_table_entry_v2_def example_defs)

lemma example_add_v1:
  "hash_table_v1_add_entry example_base example_sys example_mem empty_v1 16 7 = Inr alice_v1"
  by (simp add: hash_table_v1_add_entry_def example_index_v1 get_list_entry_v1_def
        store_chain_v1_def empty_v1_def alice_v1_def example_sys_def NULL_def Let_def
        list_update_Cons_numeral)

lemma example_add_v2:
  "hash_table_v2_add_entry example_base example_sys example_mem empty_v2 16 7 = Inr alice_v2"
  by (simp add: hash_table_v2_add_entry_def example_index_v2 get_list_entry_v2_def
        store_chain_v2_def store_mutex_v2_def empty_v2_def alice_v2_def example_sys_def NULL_def
        Let_def list_update_Cons_numeral)

lemma example_call_ok:
  "call_ok_v1 example_base example_sys example_mem empty_v1 16"
  "call_ok_v2 example_base example_sys example_mem empty_v2 16"
  by (simp_all add: call_ok_v1_def call_ok_v2_def example_index_v1 example_index_v2
        keys_readable_def sys_ok_def example_sys_def empty_v1_def empty_v2_def)

lemma example_shape:
  "length (entries_v1 empty_v1) = HASH_TABLE_CAPACITY example_base"
  "length (entries_v2 empty_v2) = HASH_TABLE_CAPACITY example_base"
  "length (entries_v1 alice_v1) = HASH_TABLE_CAPACITY example_base"
  "length (entries_v2 alice_v2) = HASH_TABLE_CAPACITY example_base"
  by (simp_all add: empty_v1_def empty_v2_def alice_v1_def alice_v2_def example_base_def)

lemma example_mem_at:
  "example_mem 16 = Some ''alice''"
  "example_mem 32 = Some ''bob''"
  "example_mem 48 = Some ''alice''"
  "example_mem 64 = Some ''carol''"
  by (simp_all add: example_mem_def)

lemma example_lookup_v1:
  "hash_table_v1_contains example_base example_mem alice_v1 16 = Inr True"
  "hash_table_v1_contains example_base example_mem alice_v1 48 = Inr True"
  "hash_table_v1_contains example_base example_mem alice_v1 32 = Inr False"
  "hash_table_v1_get_value example_base example_mem alice_v1 16 = Inr 7"
  by (simp_all add: hash_table_v1_contains_def hash_table_v1_get_value_def example_index_v1
        get_list_entry_v1_def alice_v1_def NULL_def example_mem_at)

lemma example_lookup_v2:
  "hash_table_v2_contains example_base example_mem alice_v2 16 = Inr True"
  "hash_table_v2_contains example_base example_mem alice_v2 48 = Inr True"
  "hash_table_v2_contains example_base example_mem alice_v2 32 = Inr False"
  "hash_table_v2_get_value example_base example_mem alice_v2 16 = Inr 7"
  by (simp_all add: hash_table_v2_contains_def hash_table_v2_get_value_def example_index_v2
        get_list_entry_v2_def alice_v2_def NULL_def example_mem_at)

lemma upt_0_4: "[0 ..< 4] = [0, Suc 0, 2, 3]"
proof -
  have "[0 ..< 4] = [0, 1, 2, Suc 2]"
    by (simp add: upt_conv_Cons numeral_eq_Suc)
  then show ?thesis by (simp add: numeral_eq_Suc)
qed

lemma replicate_4: "replicate 4 x = [x, x, x, x]"
  by (simp add: numeral_eq_Suc)

lemma example_create:
  "hash_table_v1_create example_base True 0 = Inr empty_v1"
  "hash_table_v2_create example_base True example_init_rc = Inr empty_v2"
  by (simp_all add: hash_table_v1_create_def hash_table_v2_create_def slist_init_v1_replicate
        example_base_def empty_v1_def empty_v2_def example_init_rc_def Let_def
        list_update_Cons_numeral upt_0_4 replicate_4)

lemma example_add_again_v1:
  "hash_table_v1_add_entry example_base example_sys example_mem alice_v1 48 9 = Inr alice_again_v1"
  by (simp add: hash_table_v1_add_entry_def example_index_v1 get_list_entry_v1_def
        store_chain_v1_def alice_v1_def alice_again_v1_def example_sys_def NULL_def Let_def
        list_update_Cons_numeral example_mem_at)

lemma example_add_again_v2:
  "hash_table_v2_add_entry example_base example_sys example_mem alice_v2 48 9 = Inr alice_again_v2"
  by (simp add: hash_table_v2_add_entry_def example_index_v2 get_list_entry_v2_def
        store_chain_v2_def store_mutex_v2_def alice_v2_def alice_again_v2_def example_sys_def
        NULL_def Let_def list_update_Cons_numeral example_mem_at)

lemma example_table_inv:
  "table_inv example_base example_mem (chains_v1 empty_v1)"
  "table_inv example_base example_mem (chains_v2 empty_v2)"
  by (simp_all add: table_inv_def bucket_inv_def chains_v1_def chains_v2_def empty_v1_def
        empty_v2_def example_base_def upt_0_4)

lemma example_table_inv_alice:
  "table_inv example_base example_mem (chains_v1 alice_v1)"
  "table_inv example_base example_mem (chains_v2 alice_v2)"
  by (simp_all add: table_inv_def bucket_inv_def chains_v1_def chains_v2_def alice_v1_def
        alice_v2_def example_base_def upt_0_4 example_mem_at)

lemma example_entries_for:
  "entries_for example_mem 32 (chains_v1 alice_v1) = []"
  "entries_for example_mem 48 (chains_v1 alice_v1) = [\<lparr>key = 16, val = 7\<rparr>]"
  "entries_for example_mem 32 (chains_v2 alice_v2) = []"
  "entries_for example_mem 48 (chains_v2 alice_v2) = [\<lparr>key = 16, val = 7\<rparr>]"
  by (simp_all add: entries_for_def chains_v1_def chains_v2_def alice_v1_def alice_v2_def
        example_mem_at)

lemma example_add_zed:
  "hash_table_v1_add_entry example_base example_sys (example_mem(16 \<mapsto> ''zed'')) alice_v1 48 9
     = Inr twice_v1"
  "hash_table_v2_add_entry example_base example_sys (example_mem(16 \<mapsto> ''zed'')) alice_v2 48 9
     = Inr twice_v2"
  by (simp_all add: hash_table_v1_add_entry_def hash_table_v2_add_entry_def
        get_hash_table_entry_v1_def get_hash_table_entry_v2_def get_list_entry_v1_def
        get_list_entry_v2_def store_chain_v1_def store_chain_v2_def store_mutex_v2_def
        alice_v1_def alice_v2_def twice_v1_def twice_v2_def example_sys_def NULL_def Let_def
        list_update_Cons_numeral example_mem_at example_base_def)

lemma example_busy_v1:
  "client_v1 example_base example_mem empty_v1 busy_calls = Inr (example_mem(80 \<mapsto> ''a''), busy_v1)"
  "writes_spare_keys_v1 example_base example_mem empty_v1 busy_calls"
proof -
  let ?m = "example_mem(80 \<mapsto> ''a'')"
  have at: "?m 16 = Some ''alice''" "?m 48 = Some ''alice''" "?m 64 = Some ''carol''"
    "?m 80 = Some ''a''"
    by (simp_all add: example_mem_at)
  have s2: "hash_table_v1_add_entry example_base example_sys ?m alice_v1 48 9 = Inr alice_again_v1"
    by (simp add: hash_table_v1_add_entry_def get_hash_table_entry_v1_def get_list_entry_v1_def
          store_chain_v1_def alice_v1_def alice_again_v1_def example_sys_def NULL_def Let_def
          list_update_Cons_numeral at example_mem_at example_base_def)
  have s3: "hash_table_v1_add_entry example_base example_sys ?m alice_again_v1 64 3
      = Inr \<lparr>entries_v1 = [\<lparr>list_head_v1 = []\<rparr>, \<lparr>list_head_v1 = []\<rparr>,
                    \<lparr>list_head_v1 = [\<lparr>key = 64, val = 3\<rparr>]\<rparr>,
                    \<lparr>list_head_v1 = [\<lparr>key = 16, val = 9\<rparr>]\<rparr>],
      mutex_v1 = Mutex_Unlocked\<rparr>"
    by (simp add: hash_table_v1_add_entry_def get_hash_table_entry_v1_def get_list_entry_v1_def
          store_chain_v1_def alice_again_v1_def example_sys_def NULL_def Let_def
          list_update_Cons_numeral at example_mem_at example_base_def)
  have s4: "hash_table_v1_add_entry example_base example_sys ?m
         \<lparr>entries_v1 = [\<lparr>list_head_v1 = []\<rparr>, \<lparr>list_head_v1 = []\<rparr>,
                    \<lparr>list_head_v1 = [\<lparr>key = 64, val = 3\<rparr>]\<rparr>,
                    \<lparr>list_head_v1 = [\<lparr>key = 16, val = 9\<rparr>]\<rparr>],
      mutex_v1 = Mutex_Unlocked\<rparr> 80 4 = Inr busy_v1"
    by (simp add: hash_table_v1_add_entry_def get_hash_table_entry_v1_def get_list_entry_v1_def
          store_chain_v1_def busy_v1_def example_sys_def NULL_def Let_def
          list_update_Cons_numeral at example_mem_at example_base_def)
  have s5: "hash_table_v1_contains example_base ?m busy_v1 16 = Inr True"
    by (simp add: hash_table_v1_contains_def get_hash_table_entry_v1_def get_list_entry_v1_def
          busy_v1_def NULL_def at example_mem_at example_base_def)
  have alone: "keys_left_alone example_mem (chains_v1 alice_v1) 80 (Some ''a'')"
    by (simp add: keys_left_alone_def chains_v1_def alice_v1_def)
  show "client_v1 example_base example_mem empty_v1 busy_calls = Inr (?m, busy_v1)"
    by (simp add: busy_calls_def example_add_v1 s2 s3 s4 s5)
  show "writes_spare_keys_v1 example_base example_mem empty_v1 busy_calls"
    by (simp add: busy_calls_def example_add_v1 s2 s3 s4 alone)
qed

lemma example_busy_v2:
  "client_v2 example_base example_mem empty_v2 busy_calls = Inr (example_mem(80 \<mapsto> ''a''), busy_v2)"
  "writes_spare_keys_v2 example_base example_mem empty_v2 busy_calls"
proof -
  let ?m = "example_mem(80 \<mapsto> ''a'')"
  have at: "?m 16 = Some ''alice''" "?m 48 = Some ''alice''" "?m 64 = Some ''carol''"
    "?m 80 = Some ''a''"
    by (simp_all add: example_mem_at)
  have s2: "hash_table_v2_add_entry example_base example_sys ?m alice_v2 48 9 = Inr alice_again_v2"
    by (simp add: hash_table_v2_add_entry_def get_hash_table_entry_v2_def get_list_entry_v2_def
          store_chain_v2_def store_mutex_v2_def alice_v2_def alice_again_v2_def example_sys_def
          NULL_def Let_def list_update_Cons_numeral at example_mem_at example_base_def)
  have s3: "hash_table_v2_add_entry example_base example_sys ?m alice_again_v2 64 3
      = Inr \<lparr>entries_v2 = [\<lparr>list_head_v2 = [], mutex_v2 = Mutex_Unlocked\<rparr>,
                    \<lparr>list_head_v2 = [], mutex_v2 = Mutex_Unlocked\<rparr>,
                    \<lparr>list_head_v2 = [\<lparr>key = 64, val = 3\<rparr>], mutex_v2 = Mutex_Unlocked\<rparr>,
                    \<lparr>list_head_v2 = [\<lparr>key = 16, val = 9\<rparr>], mutex_v2 = Mutex_Unlocked\<rparr>]\<rparr>"
    by (simp add: hash_table_v2_add_entry_def get_hash_table_entry_v2_def get_list_entry_v2_def
          store_chain_v2_def store_mutex_v2_def alice_again_v2_def example_sys_def NULL_def
          Let_def list_update_Cons_numeral at example_mem_at example_base_def)
  have s4: "hash_table_v2_add_entry example_base example_sys ?m
         \<lparr>entries_v2 = [\<lparr>list_head_v2 = [], mutex_v2 = Mutex_Unlocked\<rparr>,
                    \<lparr>list_head_v2 = [], mutex_v2 = Mutex_Unlocked\<rparr>,
                    \<lparr>list_head_v2 = [\<lparr>key = 64, val = 3\<rparr>], mutex_v2 = Mutex_Unlocked\<rparr>,
                    \<lparr>list_head_v2 = [\<lparr>key = 16, val = 9\<rparr>], mutex_v2 = Mutex_Unlocked\<rparr>]\<rparr>
         80 4 = Inr busy_v2"
    by (simp add: hash_table_v2_add_entry_def get_hash_table_entry_v2_def get_list_entry_v2_def
          store_chain_v2_def store_mutex_v2_def busy_v2_def example_sys_def NULL_def Let_def
          list_update_Cons_numeral at example_mem_at example_base_def)
  have s5: "hash_table_v2_contains example_base ?m busy_v2 16 = Inr True"
    by (simp add: hash_table_v2_contains_def get_hash_table_entry_v2_def get_list_entry_v2_def
          busy_v2_def NULL_def at example_mem_at example_base_def)
  have alone: "keys_left_alone example_mem (chains_v2 alice_v2) 80 (Some ''a'')"
    by (simp add: keys_left_alone_def chains_v2_def alice_v2_def)
  show "client_v2 example_base example_mem empty_v2 busy_calls = Inr (?m, busy_v2)"
    by (simp add: busy_calls_def example_add_v2 s2 s3 s4 s5)
  show "writes_spare_keys_v2 example_base example_mem empty_v2 busy_calls"
    by (simp add: busy_calls_def example_add_v2 s2 s3 s4 alone)
qed

lemma example_add_entries_twice:
  "add_entries_v1 example_base example_mem empty_v1 [(example_sys, 16, 7), (example_sys, 48, 9)]
     = Inr alice_again_v1"
  "add_entries_v2 example_base example_mem empty_v2 [(example_sys, 16, 7), (example_sys, 48, 9)]
     = Inr alice_again_v2"
  by (simp_all add: example_add_v1 example_add_v2 example_add_again_v1 example_add_again_v2)

section \<open>Lookup after insertion\<close>

text \<open>
  C1. Whenever \<^verbatim>\<open>add_entry(table, k, v)\<close> returns, on a table with
  \<^verbatim>\<open>HASH_TABLE_CAPACITY\<close> buckets, \<^verbatim>\<open>contains(table, k)\<close> returns true and
  \<^verbatim>\<open>get_value(table, k)\<close> returns \<open>v\<close>, in \<^verbatim>\<open>hash-table-v1.c\<close> and in \<^verbatim>\<open>hash-table-v2.c\<close>.
  The call does return when the pthread calls and \<^verbatim>\<open>calloc\<close> succeed, the key is a non-null
  string and the keys of its bucket are readable.
\<close>

theorem add_entry_then_contains_and_get_value:
  "(length (entries_v1 a) = HASH_TABLE_CAPACITY B \<longrightarrow>
      (\<forall>a'. hash_table_v1_add_entry B os mem a k v = Inr a' \<longrightarrow>
            hash_table_v1_contains B mem a' k = Inr True
          \<and> hash_table_v1_get_value B mem a' k = Inr v)
    \<and> (call_ok_v1 B os mem a k \<longrightarrow> (\<exists>a'. hash_table_v1_add_entry B os mem a k v = Inr a')))
 \<and> (length (entries_v2 b) = HASH_TABLE_CAPACITY B \<longrightarrow>
      (\<forall>b'. hash_table_v2_add_entry B os mem b k v = Inr b' \<longrightarrow>
            hash_table_v2_contains B mem b' k = Inr True
          \<and> hash_table_v2_get_value B mem b' k = Inr v)
    \<and> (call_ok_v2 B os mem b k \<longrightarrow> (\<exists>b'. hash_table_v2_add_entry B os mem b k v = Inr b')))"
proof -
  have "call_ok_v1 B os mem a k \<Longrightarrow> \<exists>a'. hash_table_v1_add_entry B os mem a k v = Inr a'"
    by (auto simp: call_ok_v1_def split: sum.splits intro: v1_add_entry_returns)
  moreover
  have "call_ok_v2 B os mem b k \<Longrightarrow> \<exists>b'. hash_table_v2_add_entry B os mem b k v = Inr b'"
    by (auto simp: call_ok_v2_def split: sum.splits intro: v2_add_entry_returns)
  ultimately show ?thesis
    using v1_insert_then_lookup [of a B os mem k v] v2_insert_then_lookup [of b B os mem k v]
    by blast
qed


theorem add_entry_then_contains_and_get_value_witness:
  "length (entries_v1 empty_v1) = HASH_TABLE_CAPACITY example_base
   \<and> call_ok_v1 example_base example_sys example_mem empty_v1 16
   \<and> hash_table_v1_add_entry example_base example_sys example_mem empty_v1 16 7 = Inr alice_v1
   \<and> hash_table_v1_contains example_base example_mem alice_v1 16 = Inr True
   \<and> hash_table_v1_get_value example_base example_mem alice_v1 16 = Inr 7
   \<and> length (entries_v2 empty_v2) = HASH_TABLE_CAPACITY example_base
   \<and> call_ok_v2 example_base example_sys example_mem empty_v2 16
   \<and> hash_table_v2_add_entry example_base example_sys example_mem empty_v2 16 7 = Inr alice_v2
   \<and> hash_table_v2_contains example_base example_mem alice_v2 16 = Inr True
   \<and> hash_table_v2_get_value example_base example_mem alice_v2 16 = Inr 7"
  using add_entry_then_contains_and_get_value
          [of empty_v1 example_base example_sys example_mem 16 7 empty_v2]
  by (simp add: example_add_v1 example_add_v2 example_call_ok example_shape)

section \<open>The assertion of \<^verbatim>\<open>get_value\<close>\<close>

text \<open>
  C7. \<^verbatim>\<open>get_value\<close> ends in the failed assertion \<^verbatim>\<open>assert(list_entry != NULL)\<close> exactly when
  the key is absent, and there is no value that stands for "missing":
  \<^item> for a key that \<^verbatim>\<open>get_hash_table_entry\<close> sends to bucket \<open>idx\<close> whose chain has readable
    keys, the assertion fails exactly when no entry of that chain has the key's string,
    \<^verbatim>\<open>contains\<close> returns whether some entry has it, and a value that \<^verbatim>\<open>get_value\<close> returns is
    the value of an entry with the key's string;
  \<^item> on a table with the invariant, the assertion fails exactly when the whole table has no
    entry for the key's string, \<^verbatim>\<open>contains\<close> returns whether it has one, and \<^verbatim>\<open>get_value\<close>
    returns \<open>v\<close> exactly when the table's one entry for the key's string has the value \<open>v\<close>;
  \<^item> for a non-null key the assertion fails exactly when \<^verbatim>\<open>contains\<close> returns false, and
    \<^verbatim>\<open>contains\<close> returns true exactly when \<^verbatim>\<open>get_value\<close> returns a value, so under the
    precondition that \<^verbatim>\<open>contains\<close> is true the assertion is not reached.
  In both files.
\<close>

theorem get_value_asserts_iff_absent:
  "(get_hash_table_entry_v1 B mem k = Inr idx
      \<and> keys_readable mem (list_head_v1 (entries_v1 a ! idx)) \<longrightarrow>
      (hash_table_v1_get_value B mem a k = Inl Assertion_Failed
         \<longleftrightarrow> (\<forall>e \<in> set (list_head_v1 (entries_v1 a ! idx)). mem (key e) \<noteq> mem k))
    \<and> hash_table_v1_contains B mem a k
         = Inr (\<exists>e \<in> set (list_head_v1 (entries_v1 a ! idx)). mem (key e) = mem k)
    \<and> (\<forall>v. hash_table_v1_get_value B mem a k = Inr v \<longrightarrow>
         (\<exists>e \<in> set (list_head_v1 (entries_v1 a ! idx)). mem (key e) = mem k \<and> val e = v)))
   \<and> (table_inv B mem (chains_v1 a) \<and> get_hash_table_entry_v1 B mem k = Inr idx \<longrightarrow>
      (hash_table_v1_get_value B mem a k = Inl Assertion_Failed
         \<longleftrightarrow> entries_for mem k (chains_v1 a) = [])
    \<and> hash_table_v1_contains B mem a k = Inr (entries_for mem k (chains_v1 a) \<noteq> [])
    \<and> (\<forall>v. hash_table_v1_get_value B mem a k = Inr v
           \<longleftrightarrow> map val (entries_for mem k (chains_v1 a)) = [v]))
   \<and> (k \<noteq> NULL \<longrightarrow>
      (hash_table_v1_get_value B mem a k = Inl Assertion_Failed
         \<longleftrightarrow> hash_table_v1_contains B mem a k = Inr False))
   \<and> (hash_table_v1_contains B mem a k = Inr True
         \<longleftrightarrow> (\<exists>v. hash_table_v1_get_value B mem a k = Inr v))
   \<and> (get_hash_table_entry_v2 B mem k = Inr idx
      \<and> keys_readable mem (list_head_v2 (entries_v2 b ! idx)) \<longrightarrow>
      (hash_table_v2_get_value B mem b k = Inl Assertion_Failed
         \<longleftrightarrow> (\<forall>e \<in> set (list_head_v2 (entries_v2 b ! idx)). mem (key e) \<noteq> mem k))
    \<and> hash_table_v2_contains B mem b k
         = Inr (\<exists>e \<in> set (list_head_v2 (entries_v2 b ! idx)). mem (key e) = mem k)
    \<and> (\<forall>v. hash_table_v2_get_value B mem b k = Inr v \<longrightarrow>
         (\<exists>e \<in> set (list_head_v2 (entries_v2 b ! idx)). mem (key e) = mem k \<and> val e = v)))
   \<and> (table_inv B mem (chains_v2 b) \<and> get_hash_table_entry_v2 B mem k = Inr idx \<longrightarrow>
      (hash_table_v2_get_value B mem b k = Inl Assertion_Failed
         \<longleftrightarrow> entries_for mem k (chains_v2 b) = [])
    \<and> hash_table_v2_contains B mem b k = Inr (entries_for mem k (chains_v2 b) \<noteq> [])
    \<and> (\<forall>v. hash_table_v2_get_value B mem b k = Inr v
           \<longleftrightarrow> map val (entries_for mem k (chains_v2 b)) = [v]))
   \<and> (k \<noteq> NULL \<longrightarrow>
      (hash_table_v2_get_value B mem b k = Inl Assertion_Failed
         \<longleftrightarrow> hash_table_v2_contains B mem b k = Inr False))
   \<and> (hash_table_v2_contains B mem b k = Inr True
         \<longleftrightarrow> (\<exists>v. hash_table_v2_get_value B mem b k = Inr v))"
proof -
  have v1a: "hash_table_v1_get_value B mem a k = Inl Assertion_Failed
         \<longleftrightarrow> hash_table_v1_contains B mem a k = Inr False" if "k \<noteq> NULL"
    using that
    by (auto simp: hash_table_v1_get_value_def hash_table_v1_contains_def
          get_hash_table_entry_v1_def get_list_entry_v1_def Let_def
        split: sum.splits option.splits if_splits dest: slist_foreach_strcmp_fault)
  have v1b: "hash_table_v1_contains B mem a k = Inr True
         \<longleftrightarrow> (\<exists>v. hash_table_v1_get_value B mem a k = Inr v)"
    by (auto simp: hash_table_v1_get_value_def hash_table_v1_contains_def Let_def
        split: sum.splits option.splits)
  have v2a: "hash_table_v2_get_value B mem b k = Inl Assertion_Failed
         \<longleftrightarrow> hash_table_v2_contains B mem b k = Inr False" if "k \<noteq> NULL"
    using that
    by (auto simp: hash_table_v2_get_value_def hash_table_v2_contains_def
          get_hash_table_entry_v2_def get_list_entry_v2_def Let_def
        split: sum.splits option.splits if_splits dest: slist_foreach_strcmp_fault)
  have v2b: "hash_table_v2_contains B mem b k = Inr True
         \<longleftrightarrow> (\<exists>v. hash_table_v2_get_value B mem b k = Inr v)"
    by (auto simp: hash_table_v2_get_value_def hash_table_v2_contains_def Let_def
        split: sum.splits option.splits)
  show ?thesis
    apply (intro conjI)
    subgoal by (intro impI) (elim conjE, rule v1_get_value_bucket)
    subgoal by (intro impI) (elim conjE, rule v1_get_value_table)
    subgoal by (intro impI) (rule v1a)
    subgoal by (rule v1b)
    subgoal by (intro impI) (elim conjE, rule v2_get_value_bucket)
    subgoal by (intro impI) (elim conjE, rule v2_get_value_table)
    subgoal by (intro impI) (rule v2a)
    subgoal by (rule v2b)
    done
qed

theorem get_value_asserts_iff_absent_witness:
  "table_inv example_base example_mem (chains_v1 alice_v1)
   \<and> get_hash_table_entry_v1 example_base example_mem 32 = Inr 0
   \<and> keys_readable example_mem (list_head_v1 (entries_v1 alice_v1 ! 0))
   \<and> (32::addr) \<noteq> NULL
   \<and> entries_for example_mem 32 (chains_v1 alice_v1) = []
   \<and> hash_table_v1_get_value example_base example_mem alice_v1 32 = Inl Assertion_Failed
   \<and> hash_table_v1_contains example_base example_mem alice_v1 32 = Inr False
   \<and> get_hash_table_entry_v1 example_base example_mem 48 = Inr 3
   \<and> map val (entries_for example_mem 48 (chains_v1 alice_v1)) = [7]
   \<and> hash_table_v1_get_value example_base example_mem alice_v1 48 = Inr 7
   \<and> hash_table_v1_contains example_base example_mem alice_v1 48 = Inr True
   \<and> table_inv example_base example_mem (chains_v2 alice_v2)
   \<and> get_hash_table_entry_v2 example_base example_mem 32 = Inr 0
   \<and> keys_readable example_mem (list_head_v2 (entries_v2 alice_v2 ! 0))
   \<and> entries_for example_mem 32 (chains_v2 alice_v2) = []
   \<and> hash_table_v2_get_value example_base example_mem alice_v2 32 = Inl Assertion_Failed
   \<and> hash_table_v2_contains example_base example_mem alice_v2 32 = Inr False
   \<and> get_hash_table_entry_v2 example_base example_mem 48 = Inr 3
   \<and> map val (entries_for example_mem 48 (chains_v2 alice_v2)) = [7]
   \<and> hash_table_v2_get_value example_base example_mem alice_v2 48 = Inr 7
   \<and> hash_table_v2_contains example_base example_mem alice_v2 48 = Inr True"
proof -
  have rd: "keys_readable example_mem (list_head_v1 (entries_v1 alice_v1 ! 0))"
    "keys_readable example_mem (list_head_v2 (entries_v2 alice_v2 ! 0))"
    by (simp_all add: keys_readable_def alice_v1_def alice_v2_def)
  have nn: "(32::addr) \<noteq> NULL"
    by (simp add: NULL_def)
  note absent = get_value_asserts_iff_absent
    [of example_base example_mem 32 0 alice_v1 alice_v2]
  note present = get_value_asserts_iff_absent
    [of example_base example_mem 48 3 alice_v1 alice_v2]
  from absent have a:
    "hash_table_v1_get_value example_base example_mem alice_v1 32 = Inl Assertion_Failed"
    "hash_table_v1_contains example_base example_mem alice_v1 32 = Inr False"
    "hash_table_v2_get_value example_base example_mem alice_v2 32 = Inl Assertion_Failed"
    "hash_table_v2_contains example_base example_mem alice_v2 32 = Inr False"
    by (simp_all add: example_table_inv_alice example_index_v1 example_index_v2
          example_entries_for)
  from present have p:
    "hash_table_v1_get_value example_base example_mem alice_v1 48 = Inr 7"
    "hash_table_v1_contains example_base example_mem alice_v1 48 = Inr True"
    "hash_table_v2_get_value example_base example_mem alice_v2 48 = Inr 7"
    "hash_table_v2_contains example_base example_mem alice_v2 48 = Inr True"
    by (simp_all add: example_table_inv_alice example_index_v1 example_index_v2
          example_entries_for)
  from a p rd nn show ?thesis
    by (simp add: example_table_inv_alice example_index_v1 example_index_v2
          example_entries_for)
qed

section \<open>The other buckets are left alone\<close>

text \<open>
  C9. A call of \<^verbatim>\<open>add_entry\<close> that returns leaves the number of buckets unchanged and
  changes no bucket other than the one at index \<^verbatim>\<open>bernstein_hash(key) % HASH_TABLE_CAPACITY\<close>:
  every other element of \<^verbatim>\<open>entries\<close> (its chain with the keys and values in it and, in
  \<^verbatim>\<open>hash-table-v2.c\<close>, its mutex) is what it was before the call. In both files.
\<close>

theorem add_entry_changes_one_bucket:
  "(hash_table_v1_add_entry B os mem a k v = Inr a' \<longrightarrow>
      length (entries_v1 a') = length (entries_v1 a)
    \<and> (\<exists>s. mem k = Some s
           \<and> (\<forall>i. i \<noteq> unat (bernstein_hash B s) mod HASH_TABLE_CAPACITY B
                  \<longrightarrow> entries_v1 a' ! i = entries_v1 a ! i)))
 \<and> (hash_table_v2_add_entry B os mem b k v = Inr b' \<longrightarrow>
      length (entries_v2 b') = length (entries_v2 b)
    \<and> (\<exists>s. mem k = Some s
           \<and> (\<forall>i. i \<noteq> unat (bernstein_hash B s) mod HASH_TABLE_CAPACITY B
                  \<longrightarrow> entries_v2 b' ! i = entries_v2 b ! i)))"
  by (auto simp: hash_table_v1_add_entry_def hash_table_v2_add_entry_def
        get_hash_table_entry_v1_def get_hash_table_entry_v2_def
        store_chain_v1_def store_chain_v2_def store_mutex_v2_def Let_def
      split: sum.splits option.splits if_splits)

theorem add_entry_changes_one_bucket_witness:
  "hash_table_v1_add_entry example_base example_sys example_mem empty_v1 16 7 = Inr alice_v1
   \<and> example_mem 16 = Some ''alice''
   \<and> (2::nat) \<noteq> unat (bernstein_hash example_base ''alice'') mod HASH_TABLE_CAPACITY example_base
   \<and> entries_v1 alice_v1 ! 2 = entries_v1 empty_v1 ! 2
   \<and> hash_table_v2_add_entry example_base example_sys example_mem empty_v2 16 7 = Inr alice_v2
   \<and> entries_v2 alice_v2 ! 2 = entries_v2 empty_v2 ! 2"
proof -
  have m: "example_mem 16 = Some ''alice''"
    by (simp add: example_mem_def)
  have h: "(2::nat) \<noteq> unat (bernstein_hash example_base ''alice'') mod HASH_TABLE_CAPACITY example_base"
    by (simp add: example_base_def)
  from add_entry_changes_one_bucket
         [of example_base example_sys example_mem empty_v1 16 7 alice_v1 empty_v2 alice_v2]
  have "entries_v1 alice_v1 ! 2 = entries_v1 empty_v1 ! 2"
    and "entries_v2 alice_v2 ! 2 = entries_v2 empty_v2 ! 2"
    using m h by (simp_all add: example_add_v1 example_add_v2)
  with m h show ?thesis
    by (simp add: example_add_v1 example_add_v2)
qed

section \<open>Allocation failures\<close>

text \<open>
  C8. \<^verbatim>\<open>hash_table_v1_create\<close> and \<^verbatim>\<open>hash_table_v2_create\<close> assert that \<^verbatim>\<open>calloc\<close> did not
  return null. \<^verbatim>\<open>add_entry\<close> does not: when the key is new and \<^verbatim>\<open>calloc\<close> returns null, the
  next statement \<^verbatim>\<open>list_entry->key = key\<close> writes through the null pointer. Nothing is
  reported and the process is not ended by the program. Evaluated on the small instance.
\<close>

theorem add_entry_unchecked_calloc:
  "hash_table_v1_add_entry example_base \<lparr>lock_rc = 0, calloc_ok = False, unlock_rc = 0\<rparr>
      example_mem empty_v1 16 7 = Inl Null_Dereference
   \<and> hash_table_v2_add_entry example_base \<lparr>lock_rc = 0, calloc_ok = False, unlock_rc = 0\<rparr>
      example_mem empty_v2 16 7 = Inl Null_Dereference
   \<and> hash_table_v1_create example_base False 0 = Inl Assertion_Failed
   \<and> hash_table_v2_create example_base False (\<lambda>i. 0) = Inl Assertion_Failed"
  by (simp add: hash_table_v1_add_entry_def hash_table_v2_add_entry_def example_index_v1
        example_index_v2 get_list_entry_v1_def get_list_entry_v2_def store_mutex_v2_def
        empty_v1_def empty_v2_def NULL_def Let_def list_update_Cons_numeral
        hash_table_v1_create_def hash_table_v2_create_def)

section \<open>The hash function and the bucket index\<close>

text \<open>
  C4. The hash of the spec starts from the seed (so it is defined on the empty string, where
  it is the seed) and takes each further byte by \<^verbatim>\<open>accumulator * 33 + byte\<close>; it is a
  function of the seed and the bytes alone. \<^verbatim>\<open>get_hash_table_entry\<close> of
  \<^verbatim>\<open>hash-table-v1.c\<close> and of \<^verbatim>\<open>hash-table-v2.c\<close> give the same result for the same key, and
  for two non-null keys with the same string \<open>s\<close> both give the bucket index
  \<^verbatim>\<open>hash(s) mod HASH_TABLE_CAPACITY\<close>.
\<close>

theorem bernstein_hash_routes_both_variants_alike:
  "bernstein_hash_from seed [] = seed
   \<and> bernstein_hash_from seed (bytes @ [byte]) = bernstein_hash_from seed bytes * 33 + of_char byte
   \<and> get_hash_table_entry_v1 B mem k = get_hash_table_entry_v2 B mem k
   \<and> (bernstein_hash B = bernstein_hash_from seed \<and> k \<noteq> NULL \<and> p \<noteq> NULL
        \<and> mem k = Some s \<and> mem p = Some s \<and> 0 < HASH_TABLE_CAPACITY B \<longrightarrow>
        get_hash_table_entry_v1 B mem k
          = Inr (unat (bernstein_hash_from seed s) mod HASH_TABLE_CAPACITY B)
      \<and> get_hash_table_entry_v2 B mem p
          = Inr (unat (bernstein_hash_from seed s) mod HASH_TABLE_CAPACITY B))"
  by (simp add: bernstein_hash_from_append get_hash_table_entry_v1_def
        get_hash_table_entry_v2_def)

theorem bernstein_hash_routes_both_variants_alike_witness:
  "bernstein_hash example_base = bernstein_hash_from 5381
   \<and> (16::addr) \<noteq> NULL \<and> (48::addr) \<noteq> NULL
   \<and> example_mem 16 = Some ''alice'' \<and> example_mem 48 = Some ''alice''
   \<and> 0 < HASH_TABLE_CAPACITY example_base
   \<and> unat (bernstein_hash_from 5381 ''alice'') mod HASH_TABLE_CAPACITY example_base = 3
   \<and> get_hash_table_entry_v1 example_base example_mem 16 = Inr 3
   \<and> get_hash_table_entry_v2 example_base example_mem 48 = Inr 3"
proof -
  have hyps: "bernstein_hash example_base = bernstein_hash_from 5381"
    "(16::addr) \<noteq> NULL" "(48::addr) \<noteq> NULL"
    "example_mem 16 = Some ''alice''" "example_mem 48 = Some ''alice''"
    "0 < HASH_TABLE_CAPACITY example_base"
    by (simp_all add: example_base_def example_mem_def NULL_def)
  have idx: "unat (bernstein_hash_from 5381 ''alice'') mod HASH_TABLE_CAPACITY example_base = 3"
    by (simp add: example_base_def)
  from bernstein_hash_routes_both_variants_alike
          [of 5381 "[]" "CHR ''a''" example_base example_mem 16 48 "''alice''"] hyps
  have "get_hash_table_entry_v1 example_base example_mem 16
          = Inr (unat (bernstein_hash_from 5381 ''alice'') mod HASH_TABLE_CAPACITY example_base)"
    and "get_hash_table_entry_v2 example_base example_mem 48
          = Inr (unat (bernstein_hash_from 5381 ''alice'') mod HASH_TABLE_CAPACITY example_base)"
    by blast+
  with hyps idx show ?thesis
    by simp
qed

section \<open>Whose memory the keys are in\<close>

text \<open>
  C3, as the spec has it: the table keeps its own copy of the key bytes, so that after
  \<^verbatim>\<open>add_entry\<close> has returned the caller may overwrite or release its key buffer and lookups
  of the original bytes still find the entry. The code keeps the caller's pointer
  (\<^verbatim>\<open>list_entry->key = key\<close>; nothing is copied, and \<^verbatim>\<open>destroy\<close> frees no key). On the small
  instance: \<open>''alice''\<close> is inserted from the buffer at 16; once the caller has overwritten
  that buffer, \<^verbatim>\<open>contains\<close> of \<open>''alice''\<close> (read from the buffer at 48) returns false and
  \<^verbatim>\<open>get_value\<close> fails its assertion; once the caller has released it, \<^verbatim>\<open>contains\<close> reads
  memory that holds no string.
\<close>

theorem key_buffer_is_shared_counterexample:
  "hash_table_v1_add_entry example_base example_sys example_mem empty_v1 16 7 = Inr alice_v1
   \<and> hash_table_v1_contains example_base (example_mem(16 \<mapsto> ''zed'')) alice_v1 48 = Inr False
   \<and> hash_table_v1_get_value example_base (example_mem(16 \<mapsto> ''zed'')) alice_v1 48
        = Inl Assertion_Failed
   \<and> hash_table_v1_contains example_base (example_mem(16 := None)) alice_v1 48 = Inl Invalid_Read
   \<and> hash_table_v2_add_entry example_base example_sys example_mem empty_v2 16 7 = Inr alice_v2
   \<and> hash_table_v2_contains example_base (example_mem(16 \<mapsto> ''zed'')) alice_v2 48 = Inr False
   \<and> hash_table_v2_get_value example_base (example_mem(16 \<mapsto> ''zed'')) alice_v2 48
        = Inl Assertion_Failed
   \<and> hash_table_v2_contains example_base (example_mem(16 := None)) alice_v2 48 = Inl Invalid_Read"
proof -
  have i1: "get_hash_table_entry_v1 example_base (example_mem(16 \<mapsto> ''zed'')) 48 = Inr 3"
    "get_hash_table_entry_v1 example_base (example_mem(16 := None)) 48 = Inr 3"
    by (simp_all add: get_hash_table_entry_v1_def example_mem_at example_base_def NULL_def)
  have i2: "get_hash_table_entry_v2 example_base (example_mem(16 \<mapsto> ''zed'')) 48 = Inr 3"
    "get_hash_table_entry_v2 example_base (example_mem(16 := None)) 48 = Inr 3"
    by (simp_all add: get_hash_table_entry_v2_def example_mem_at example_base_def NULL_def)
  show ?thesis
    by (simp add: example_add_v1 example_add_v2 hash_table_v1_contains_def
          hash_table_v2_contains_def hash_table_v1_get_value_def hash_table_v2_get_value_def
          i1 i2 get_list_entry_v1_def get_list_entry_v2_def alice_v1_def alice_v2_def NULL_def
          example_mem_at)
qed

text \<open>
  C3, amended. When \<^verbatim>\<open>add_entry\<close> creates a new entry, the entry at the head of the chain
  holds the caller's key pointer itself. After \<^verbatim>\<open>add_entry(table, k, v)\<close> has returned,
  \<^verbatim>\<open>contains\<close> returns true and \<^verbatim>\<open>get_value\<close> returns \<open>v\<close> for every non-null key with the
  bytes \<open>k\<close> had at the call, in every later memory in which the key buffers that the
  bucket's entries point to (the caller's buffer for \<open>k\<close> among them) still hold the bytes
  they held at the call.
\<close>

theorem add_entry_keeps_callers_key_pointer:
  "(length (entries_v1 a) = HASH_TABLE_CAPACITY B
      \<and> hash_table_v1_add_entry B os mem a k v = Inr a' \<longrightarrow>
    (\<exists>idx. get_hash_table_entry_v1 B mem k = Inr idx
     \<and> (get_list_entry_v1 mem k (list_head_v1 (entries_v1 a ! idx)) = Inr None \<longrightarrow>
          list_head_v1 (entries_v1 a' ! idx)
            = \<lparr>key = k, val = v\<rparr> # list_head_v1 (entries_v1 a ! idx))
     \<and> (\<forall>mem' k'. k' \<noteq> NULL \<and> mem' k' = mem k
            \<and> (\<forall>e \<in> set (list_head_v1 (entries_v1 a' ! idx)). mem' (key e) = mem (key e)) \<longrightarrow>
            hash_table_v1_contains B mem' a' k' = Inr True
          \<and> hash_table_v1_get_value B mem' a' k' = Inr v)))
 \<and> (length (entries_v2 b) = HASH_TABLE_CAPACITY B
      \<and> hash_table_v2_add_entry B os mem b k v = Inr b' \<longrightarrow>
    (\<exists>idx. get_hash_table_entry_v2 B mem k = Inr idx
     \<and> (get_list_entry_v2 mem k (list_head_v2 (entries_v2 b ! idx)) = Inr None \<longrightarrow>
          list_head_v2 (entries_v2 b' ! idx)
            = \<lparr>key = k, val = v\<rparr> # list_head_v2 (entries_v2 b ! idx))
     \<and> (\<forall>mem' k'. k' \<noteq> NULL \<and> mem' k' = mem k
            \<and> (\<forall>e \<in> set (list_head_v2 (entries_v2 b' ! idx)). mem' (key e) = mem (key e)) \<longrightarrow>
            hash_table_v2_contains B mem' b' k' = Inr True
          \<and> hash_table_v2_get_value B mem' b' k' = Inr v)))"
  using v1_lookup_after_add [of a B os mem k v a'] v2_lookup_after_add [of b B os mem k v b']
  by blast

theorem add_entry_keeps_callers_key_pointer_witness:
  "length (entries_v1 empty_v1) = HASH_TABLE_CAPACITY example_base
   \<and> hash_table_v1_add_entry example_base example_sys example_mem empty_v1 16 7 = Inr alice_v1
   \<and> get_list_entry_v1 example_mem 16 (list_head_v1 (entries_v1 empty_v1 ! 3)) = Inr None
   \<and> list_head_v1 (entries_v1 alice_v1 ! 3) = [\<lparr>key = 16, val = 7\<rparr>]
   \<and> hash_table_v1_contains example_base (example_mem(32 \<mapsto> ''zed'')) alice_v1 48 = Inr True
   \<and> hash_table_v1_get_value example_base (example_mem(32 \<mapsto> ''zed'')) alice_v1 48 = Inr 7
   \<and> length (entries_v2 empty_v2) = HASH_TABLE_CAPACITY example_base
   \<and> hash_table_v2_add_entry example_base example_sys example_mem empty_v2 16 7 = Inr alice_v2
   \<and> get_list_entry_v2 example_mem 16 (list_head_v2 (entries_v2 empty_v2 ! 3)) = Inr None
   \<and> list_head_v2 (entries_v2 alice_v2 ! 3) = [\<lparr>key = 16, val = 7\<rparr>]
   \<and> hash_table_v2_contains example_base (example_mem(32 \<mapsto> ''zed'')) alice_v2 48 = Inr True
   \<and> hash_table_v2_get_value example_base (example_mem(32 \<mapsto> ''zed'')) alice_v2 48 = Inr 7"
proof -
  let ?mem' = "example_mem(32 \<mapsto> ''zed'')"
  have none: "get_list_entry_v1 example_mem 16 (list_head_v1 (entries_v1 empty_v1 ! 3)) = Inr None"
    "get_list_entry_v2 example_mem 16 (list_head_v2 (entries_v2 empty_v2 ! 3)) = Inr None"
    by (simp_all add: get_list_entry_v1_def get_list_entry_v2_def empty_v1_def empty_v2_def NULL_def)
  have nil: "list_head_v1 (entries_v1 empty_v1 ! 3) = []"
    "list_head_v2 (entries_v2 empty_v2 ! 3) = []"
    by (simp_all add: empty_v1_def empty_v2_def)
  have same: "(48::addr) \<noteq> NULL" "?mem' 48 = example_mem 16"
    "\<forall>e \<in> set [\<lparr>key = 16, val = 7\<rparr>]. ?mem' (key e) = example_mem (key e)"
    by (simp_all add: example_mem_at NULL_def)
  from add_entry_keeps_callers_key_pointer
         [of empty_v1 example_base example_sys example_mem 16 7 alice_v1 empty_v2 alice_v2]
  have v1: "list_head_v1 (entries_v1 alice_v1 ! 3) = [\<lparr>key = 16, val = 7\<rparr>]"
    and v1': "\<forall>mem' k'. k' \<noteq> NULL \<and> mem' k' = example_mem 16
            \<and> (\<forall>e \<in> set (list_head_v1 (entries_v1 alice_v1 ! 3)). mem' (key e) = example_mem (key e)) \<longrightarrow>
            hash_table_v1_contains example_base mem' alice_v1 k' = Inr True
          \<and> hash_table_v1_get_value example_base mem' alice_v1 k' = Inr 7"
    and v2: "list_head_v2 (entries_v2 alice_v2 ! 3) = [\<lparr>key = 16, val = 7\<rparr>]"
    and v2': "\<forall>mem' k'. k' \<noteq> NULL \<and> mem' k' = example_mem 16
            \<and> (\<forall>e \<in> set (list_head_v2 (entries_v2 alice_v2 ! 3)). mem' (key e) = example_mem (key e)) \<longrightarrow>
            hash_table_v2_contains example_base mem' alice_v2 k' = Inr True
          \<and> hash_table_v2_get_value example_base mem' alice_v2 k' = Inr 7"
    using none nil by (simp_all add: example_add_v1 example_add_v2 example_shape example_index_v1
          example_index_v2)
  from v1' [rule_format, of 48 ?mem'] v2' [rule_format, of 48 ?mem'] same v1 v2
  have "hash_table_v1_contains example_base ?mem' alice_v1 48 = Inr True"
    "hash_table_v1_get_value example_base ?mem' alice_v1 48 = Inr 7"
    "hash_table_v2_contains example_base ?mem' alice_v2 48 = Inr True"
    "hash_table_v2_get_value example_base ?mem' alice_v2 48 = Inr 7"
    by simp_all
  with none v1 v2 show ?thesis
    by (simp add: example_add_v1 example_add_v2 example_shape)
qed

section \<open>The invariant, insertions and caller writes\<close>

text \<open>
  C6, as the spec has it: the table keeps, across every sequence of insertions, at most one
  entry per key string in a bucket, and every entry in the bucket its key string hashes to.
  The entries hold the caller's pointers, and the caller may write its buffers between
  calls. On the small instance: after \<open>''alice''\<close> is inserted from the buffer at 16 and
  the caller writes \<open>''bob''\<close> there, the entry sits in bucket 3 with a key string that
  hashes to bucket 0; and after the caller overwrites the buffer, inserts \<open>''alice''\<close> from
  the buffer at 48 and writes \<open>''alice''\<close> back, bucket 3 holds two entries for
  \<open>''alice''\<close>, with the values 9 and 7.
\<close>

theorem caller_write_breaks_table_invariant_counterexample:
  "table_inv example_base example_mem (chains_v1 empty_v1)
   \<and> client_v1 example_base example_mem empty_v1
        [Add example_sys 16 7, Caller_Writes 16 (Some ''bob'')]
      = Inr (example_mem(16 \<mapsto> ''bob''), alice_v1)
   \<and> \<not> table_inv example_base (example_mem(16 \<mapsto> ''bob'')) (chains_v1 alice_v1)
   \<and> client_v1 example_base example_mem empty_v1
        [Add example_sys 16 7, Caller_Writes 16 (Some ''zed''), Add example_sys 48 9,
         Caller_Writes 16 (Some ''alice'')]
      = Inr (example_mem(16 \<mapsto> ''zed'', 16 \<mapsto> ''alice''), twice_v1)
   \<and> map val (entries_for (example_mem(16 \<mapsto> ''zed'', 16 \<mapsto> ''alice'')) 48 (chains_v1 twice_v1))
      = [9, 7]
   \<and> \<not> table_inv example_base (example_mem(16 \<mapsto> ''zed'', 16 \<mapsto> ''alice'')) (chains_v1 twice_v1)
   \<and> table_inv example_base example_mem (chains_v2 empty_v2)
   \<and> client_v2 example_base example_mem empty_v2
        [Add example_sys 16 7, Caller_Writes 16 (Some ''bob'')]
      = Inr (example_mem(16 \<mapsto> ''bob''), alice_v2)
   \<and> \<not> table_inv example_base (example_mem(16 \<mapsto> ''bob'')) (chains_v2 alice_v2)
   \<and> client_v2 example_base example_mem empty_v2
        [Add example_sys 16 7, Caller_Writes 16 (Some ''zed''), Add example_sys 48 9,
         Caller_Writes 16 (Some ''alice'')]
      = Inr (example_mem(16 \<mapsto> ''zed'', 16 \<mapsto> ''alice''), twice_v2)
   \<and> map val (entries_for (example_mem(16 \<mapsto> ''zed'', 16 \<mapsto> ''alice'')) 48 (chains_v2 twice_v2))
      = [9, 7]
   \<and> \<not> table_inv example_base (example_mem(16 \<mapsto> ''zed'', 16 \<mapsto> ''alice'')) (chains_v2 twice_v2)"
proof -
  have runs: "client_v1 example_base example_mem empty_v1
        [Add example_sys 16 7, Caller_Writes 16 (Some ''bob'')]
      = Inr (example_mem(16 \<mapsto> ''bob''), alice_v1)"
    "client_v1 example_base example_mem empty_v1
        [Add example_sys 16 7, Caller_Writes 16 (Some ''zed''), Add example_sys 48 9,
         Caller_Writes 16 (Some ''alice'')]
      = Inr (example_mem(16 \<mapsto> ''zed'', 16 \<mapsto> ''alice''), twice_v1)"
    "client_v2 example_base example_mem empty_v2
        [Add example_sys 16 7, Caller_Writes 16 (Some ''bob'')]
      = Inr (example_mem(16 \<mapsto> ''bob''), alice_v2)"
    "client_v2 example_base example_mem empty_v2
        [Add example_sys 16 7, Caller_Writes 16 (Some ''zed''), Add example_sys 48 9,
         Caller_Writes 16 (Some ''alice'')]
      = Inr (example_mem(16 \<mapsto> ''zed'', 16 \<mapsto> ''alice''), twice_v2)"
    by (simp_all add: example_add_v1 example_add_v2 example_add_zed)
  have broken: "\<not> table_inv example_base (example_mem(16 \<mapsto> ''bob'')) (chains_v1 alice_v1)"
    "\<not> table_inv example_base (example_mem(16 \<mapsto> ''bob'')) (chains_v2 alice_v2)"
    "\<not> table_inv example_base (example_mem(16 \<mapsto> ''zed'', 16 \<mapsto> ''alice'')) (chains_v1 twice_v1)"
    "\<not> table_inv example_base (example_mem(16 \<mapsto> ''zed'', 16 \<mapsto> ''alice'')) (chains_v2 twice_v2)"
    by (simp_all add: table_inv_def bucket_inv_def chains_v1_def chains_v2_def alice_v1_def
          alice_v2_def twice_v1_def twice_v2_def example_base_def upt_0_4 example_mem_at)
  have two: "map val (entries_for (example_mem(16 \<mapsto> ''zed'', 16 \<mapsto> ''alice'')) 48 (chains_v1 twice_v1))
      = [9, 7]"
    "map val (entries_for (example_mem(16 \<mapsto> ''zed'', 16 \<mapsto> ''alice'')) 48 (chains_v2 twice_v2))
      = [9, 7]"
    by (simp_all add: entries_for_def chains_v1_def chains_v2_def twice_v1_def twice_v2_def
          example_mem_at)
  from runs broken two show ?thesis
    by (simp only: example_table_inv simp_thms)
qed

text \<open>
  C6, amended. The table that \<^verbatim>\<open>create\<close> returns has \<^verbatim>\<open>HASH_TABLE_CAPACITY\<close> buckets, and in
  each bucket \<open>i\<close> no two entries have the same key string and every entry's key string
  \<open>s\<close> has \<^verbatim>\<open>hash(s) mod HASH_TABLE_CAPACITY = i\<close>. Every sequence of \<^verbatim>\<open>add_entry\<close> calls that
  return takes a table with this invariant to a table with it, as long as the caller
  leaves the bytes of every key buffer that an entry points to as they are: with no write
  at all between the calls, and also with \<^verbatim>\<open>contains\<close> and \<^verbatim>\<open>get_value\<close> calls and caller
  writes in between, when each write leaves the keys of the table alone. The index depends
  on the key string and the two constants of the header only, never on the table. In both
  files.
\<close>

theorem add_entry_keeps_table_invariant:
  "(hash_table_v1_create B c r = Inr a0 \<longrightarrow> table_inv B mem (chains_v1 a0))
   \<and> (table_inv B mem (chains_v1 a) \<and> add_entries_v1 B mem a adds = Inr a'
        \<longrightarrow> table_inv B mem (chains_v1 a'))
   \<and> (table_inv B mem (chains_v1 a) \<and> writes_spare_keys_v1 B mem a calls
        \<and> client_v1 B mem a calls = Inr (mem1, a1) \<longrightarrow> table_inv B mem1 (chains_v1 a1))
   \<and> (hash_table_v2_create B c rc = Inr b0 \<longrightarrow> table_inv B mem (chains_v2 b0))
   \<and> (table_inv B mem (chains_v2 b) \<and> add_entries_v2 B mem b adds = Inr b'
        \<longrightarrow> table_inv B mem (chains_v2 b'))
   \<and> (table_inv B mem (chains_v2 b) \<and> writes_spare_keys_v2 B mem b calls
        \<and> client_v2 B mem b calls = Inr (mem2, b2) \<longrightarrow> table_inv B mem2 (chains_v2 b2))"
proof -
  have c1: "table_inv B mem (chains_v1 a0)" if "hash_table_v1_create B c r = Inr a0"
    using hash_table_v1_create_Inr [OF that] by (simp add: chains_v1_def table_inv_empty)
  have c2: "table_inv B mem (chains_v2 b0)" if "hash_table_v2_create B c rc = Inr b0"
    using hash_table_v2_create_Inr [OF that] by (simp add: table_inv_empty)
  show ?thesis
    apply (intro conjI)
    subgoal by (intro impI) (rule c1)
    subgoal by (intro impI) (elim conjE, rule add_entries_v1_table_inv)
    subgoal by (intro impI) (elim conjE, rule client_v1_table_inv)
    subgoal by (intro impI) (rule c2)
    subgoal by (intro impI) (elim conjE, rule add_entries_v2_table_inv)
    subgoal by (intro impI) (elim conjE, rule client_v2_table_inv)
    done
qed

theorem add_entry_keeps_table_invariant_witness:
  "hash_table_v1_create example_base True 0 = Inr empty_v1
   \<and> table_inv example_base example_mem (chains_v1 empty_v1)
   \<and> add_entries_v1 example_base example_mem empty_v1
        [(example_sys, 16, 7), (example_sys, 48, 9)] = Inr alice_again_v1
   \<and> table_inv example_base example_mem (chains_v1 alice_again_v1)
   \<and> writes_spare_keys_v1 example_base example_mem empty_v1 busy_calls
   \<and> client_v1 example_base example_mem empty_v1 busy_calls
        = Inr (example_mem(80 \<mapsto> ''a''), busy_v1)
   \<and> table_inv example_base (example_mem(80 \<mapsto> ''a'')) (chains_v1 busy_v1)
   \<and> hash_table_v2_create example_base True example_init_rc = Inr empty_v2
   \<and> table_inv example_base example_mem (chains_v2 empty_v2)
   \<and> add_entries_v2 example_base example_mem empty_v2
        [(example_sys, 16, 7), (example_sys, 48, 9)] = Inr alice_again_v2
   \<and> table_inv example_base example_mem (chains_v2 alice_again_v2)
   \<and> writes_spare_keys_v2 example_base example_mem empty_v2 busy_calls
   \<and> client_v2 example_base example_mem empty_v2 busy_calls
        = Inr (example_mem(80 \<mapsto> ''a''), busy_v2)
   \<and> table_inv example_base (example_mem(80 \<mapsto> ''a'')) (chains_v2 busy_v2)"
proof -
  note inst = add_entry_keeps_table_invariant
    [where B = example_base and c = True and r = 0 and ?a0.0 = empty_v1 and mem = example_mem
       and a = empty_v1 and adds = "[(example_sys, 16, 7), (example_sys, 48, 9)]"
       and a' = alice_again_v1 and calls = busy_calls
       and ?mem1.0 = "example_mem(80 \<mapsto> ''a'')" and ?a1.0 = busy_v1
       and rc = example_init_rc and ?b0.0 = empty_v2 and b = empty_v2
       and b' = alice_again_v2 and ?mem2.0 = "example_mem(80 \<mapsto> ''a'')" and ?b2.0 = busy_v2]
  from inst have e1: "table_inv example_base example_mem (chains_v1 empty_v1)"
    and e2: "table_inv example_base example_mem (chains_v2 empty_v2)"
    by (simp_all only: example_create simp_thms)
  from inst e1 e2 have
    "table_inv example_base example_mem (chains_v1 alice_again_v1)"
    "table_inv example_base (example_mem(80 \<mapsto> ''a'')) (chains_v1 busy_v1)"
    "table_inv example_base example_mem (chains_v2 alice_again_v2)"
    "table_inv example_base (example_mem(80 \<mapsto> ''a'')) (chains_v2 busy_v2)"
    by (simp_all only: example_add_entries_twice example_busy_v1 example_busy_v2 simp_thms)
  with e1 e2 show ?thesis
    by (simp only: example_create example_add_entries_twice example_busy_v1 example_busy_v2
          simp_thms)
qed

section \<open>Inserting a key twice\<close>



section \<open>The two variants are observationally equal\<close>

text \<open>
  C5. A sequential client that runs the same calls (\<^verbatim>\<open>add_entry\<close>, \<^verbatim>\<open>contains\<close>,
  \<^verbatim>\<open>get_value\<close>, and writes to its own key buffers in between) against a table of
  \<^verbatim>\<open>hash-table-v1.c\<close> and a table of \<^verbatim>\<open>hash-table-v2.c\<close> that hold the same chains, in
  particular against the two tables that the two \<^verbatim>\<open>create\<close> functions return, observes
  the same results of every \<^verbatim>\<open>contains\<close> and \<^verbatim>\<open>get_value\<close> call, in the same order, and
  the two runs end at the same call if one ends. The system's answers to the pthread and
  \<^verbatim>\<open>calloc\<close> calls of each \<^verbatim>\<open>add_entry\<close> are the same in both runs.
\<close>

theorem variants_observationally_equal:
  "(length (entries_v1 a) = HASH_TABLE_CAPACITY B \<and> chains_v1 a = chains_v2 b \<longrightarrow>
      run_v1 B mem a calls = run_v2 B mem b calls)
   \<and> (hash_table_v1_create B c1 r1 = Inr a0 \<and> hash_table_v2_create B c2 r2 = Inr b0 \<longrightarrow>
      run_v1 B mem a0 calls = run_v2 B mem b0 calls)"
proof -
  have "run_v1 B mem a0 calls = run_v2 B mem b0 calls"
    if "hash_table_v1_create B c1 r1 = Inr a0" "hash_table_v2_create B c2 r2 = Inr b0"
  proof -
    from hash_table_v1_create_Inr [OF that(1)] hash_table_v2_create_Inr [OF that(2)]
    have "length (entries_v1 a0) = HASH_TABLE_CAPACITY B" "chains_v1 a0 = chains_v2 b0"
      by (simp_all add: chains_v1_def)
    then show ?thesis by (rule run_same)
  qed
  with run_same [of a B b mem calls] show ?thesis by blast
qed

theorem variants_observationally_equal_witness:
  "hash_table_v1_create example_base True 0 = Inr empty_v1
   \<and> hash_table_v2_create example_base True example_init_rc = Inr empty_v2
   \<and> run_v1 example_base example_mem empty_v1
        [Add example_sys 16 7, Contains 48, Get 16, Add example_sys 48 9, Get 16,
         Contains 32, Get 32]
      = [Contains_Returned True, Get_Returned 7, Get_Returned 9, Contains_Returned False,
         Process_Ended Assertion_Failed]
   \<and> run_v2 example_base example_mem empty_v2
        [Add example_sys 16 7, Contains 48, Get 16, Add example_sys 48 9, Get 16,
         Contains 32, Get 32]
      = [Contains_Returned True, Get_Returned 7, Get_Returned 9, Contains_Returned False,
         Process_Ended Assertion_Failed]"
proof -
  let ?calls = "[Add example_sys 16 7, Contains 48, Get 16, Add example_sys 48 9, Get 16,
         Contains 32, Get 32]"
  have again: "hash_table_v1_contains example_base example_mem alice_again_v1 32 = Inr False"
    "hash_table_v1_get_value example_base example_mem alice_again_v1 16 = Inr 9"
    "hash_table_v1_get_value example_base example_mem alice_again_v1 32 = Inl Assertion_Failed"
    by (simp_all add: hash_table_v1_contains_def hash_table_v1_get_value_def example_index_v1
        get_list_entry_v1_def alice_again_v1_def NULL_def example_mem_at)
  have r1: "run_v1 example_base example_mem empty_v1
        [Add example_sys 16 7, Contains 48, Get 16, Add example_sys 48 9, Get 16,
         Contains 32, Get 32]
      = [Contains_Returned True, Get_Returned 7, Get_Returned 9, Contains_Returned False,
         Process_Ended Assertion_Failed]"
    by (simp add: example_add_v1 example_lookup_v1 example_add_again_v1 again)
  with variants_observationally_equal
         [of empty_v1 example_base empty_v2 example_mem ?calls True 0 empty_v1 True
             example_init_rc empty_v2]
  show ?thesis
    by (simp add: example_create)
qed

text \<open>
  The two files differ in which failure comes first when both the key is null and
  \<^verbatim>\<open>pthread_mutex_lock\<close> fails: \<^verbatim>\<open>hash-table-v1.c\<close> locks before it looks at the key,
  \<^verbatim>\<open>hash-table-v2.c\<close> after. The process ends in both.
\<close>

lemma add_entry_fault_order:
  "lock_rc os \<noteq> 0 \<Longrightarrow>
     hash_table_v1_add_entry B os mem a NULL v = Inl Exit_Failure
   \<and> hash_table_v2_add_entry B os mem b NULL v = Inl Assertion_Failed"
  by (simp add: hash_table_v1_add_entry_def hash_table_v2_add_entry_def
        get_hash_table_entry_v2_def)

end
